theory Spec2Isabelle
  imports Main "HOL-Library.Word"
begin

section \<open>Exceptions and outcomes of a call\<close>

text \<open>
  The four standard exceptions the library throws, and the ways a call can end:
  it returns a value, it throws, it runs into behaviour the language leaves undefined
  (a read past the end of an array, a division by zero), or the call is rejected when
  the program is translated (a failed \<^verbatim>\<open>static_assert\<close>).
\<close>

datatype exn = length_error | out_of_range | overflow_error | invalid_argument

datatype 'a outcome = Returns 'a | Throws exn | Undefined | Rejected

section \<open>The fixed-shape array \<^verbatim>\<open>array_md\<close>\<close>

subsection \<open>The base case \<^verbatim>\<open>array_md<T>\<close>: no extents, one element\<close>

text \<open>
  The object is its only member \<^verbatim>\<open>data_block\<close>, of type \<^verbatim>\<open>T\<close>.
  Index lists are \<^verbatim>\<open>std::initializer_list<size_type>\<close>.
\<close>

definition dimensionality0 :: nat where
  "dimensionality0 = 0"

definition static_size0 :: nat where
  "static_size0 = 1"

definition size0 :: "'a \<Rightarrow> nat" where
  "size0 data_block = static_size0"

definition empty0 :: "'a \<Rightarrow> bool" where
  "empty0 data_block = (size0 data_block = 0)"

definition call0 :: "'a \<Rightarrow> 'a" where
  "call0 data_block = data_block"

definition call0_list :: "'a \<Rightarrow> nat list \<Rightarrow> 'a outcome" where
  "call0_list data_block i = Returns data_block"

definition at0 :: "'a \<Rightarrow> 'a" where
  "at0 data_block = data_block"

definition at0_list :: "'a \<Rightarrow> nat list \<Rightarrow> 'a outcome" where
  "at0_list data_block i =
     (if length i \<noteq> 0 then Throws length_error else Returns data_block)"

subsection \<open>The recursive case \<^verbatim>\<open>array_md<T, M, N...>\<close>\<close>

text \<open>
  \<^verbatim>\<open>data_block\<close> is the nested built-in array \<^verbatim>\<open>T[M][N]...\<close>. A value of
  that type is a tree whose inner nodes are arrays; \<open>has_shape\<close> is the typing judgement
  ``this value has type \<^verbatim>\<open>T[n0][n1]...\<close>''.
\<close>

datatype 'a nested = Elem 'a | Arr "'a nested list"

fun has_shape :: "nat list \<Rightarrow> 'a nested \<Rightarrow> bool" where
  "has_shape [] (Elem x) = True"
| "has_shape (n # ns) (Arr xs) = (length xs = n \<and> list_all (has_shape ns) xs)"
| "has_shape [] (Arr xs) = False"
| "has_shape (n # ns) (Elem x) = False"

text \<open>
  \<^verbatim>\<open>static_size\<close> is \<^verbatim>\<open>extent<data_type> * (sizeof(direct_element_type) / sizeof(value_type))\<close>:
  the first extent times the number of elements in one direct element.
\<close>

fun static_size :: "nat list \<Rightarrow> nat" where
  "static_size [] = 1"
| "static_size (M # N) = M * prod_list N"

definition size_md :: "nat list \<Rightarrow> nat" where
  "size_md static_sizes = static_size static_sizes"

definition empty_md :: "nat list \<Rightarrow> bool" where
  "empty_md static_sizes = (size_md static_sizes = 0)"

text \<open>
  \<^verbatim>\<open>data()\<close> is the address of the first element. A nested built-in array is
  contiguous, so the memory behind that pointer is the elements in row-major order.
  When the first extent is zero the object holds a placeholder and no element: the
  block is empty.
\<close>

fun data :: "'a nested \<Rightarrow> 'a list" where
  "data (Elem x) = [x]"
| "data (Arr xs) = concat (map data xs)"

text \<open>Reading \<^verbatim>\<open>*p\<close> for \<^verbatim>\<open>p = data() + k\<close>: defined inside the block only.\<close>

definition deref :: "'a list \<Rightarrow> nat \<Rightarrow> 'a outcome" where
  "deref block k = (if k < length block then Returns (block ! k) else Undefined)"

text \<open>
  The loop of \<^verbatim>\<open>operator [](std::initializer_list<size_type>) const\<close>.
  \<open>pfraction\<close> is what is left of \<^verbatim>\<open>static_sizes\<close>; reading it past its end and
  dividing by a zero extent are undefined.
\<close>

fun subscript_loop :: "nat list \<Rightarrow> nat \<Rightarrow> nat \<Rightarrow> nat list \<Rightarrow> nat outcome" where
  "subscript_loop pfraction stride start [] = Returns start"
| "subscript_loop [] stride start (ii # i) = Undefined"
| "subscript_loop (n # pfraction) stride start (ii # i) =
     (if n = 0 then Undefined
      else subscript_loop pfraction (stride div n) (start + (stride div n) * ii) i)"

definition subscript_list :: "nat list \<Rightarrow> 'a nested \<Rightarrow> nat list \<Rightarrow> 'a outcome" where
  "subscript_list static_sizes data_block i =
     (case subscript_loop static_sizes (static_size static_sizes) 0 i of
        Returns start \<Rightarrow> deref (data data_block) start
      | Throws e \<Rightarrow> Throws e
      | Undefined \<Rightarrow> Undefined
      | Rejected \<Rightarrow> Rejected)"

text \<open>\<^verbatim>\<open>operator ()(std::initializer_list<size_type> i)\<close> returns \<^verbatim>\<open>operator [](i)\<close>.\<close>

definition call_list :: "nat list \<Rightarrow> 'a nested \<Rightarrow> nat list \<Rightarrow> 'a outcome" where
  "call_list static_sizes data_block i = subscript_list static_sizes data_block i"

text \<open>The loop of \<^verbatim>\<open>at(std::initializer_list<size_type>) const\<close>.\<close>

fun at_loop :: "nat list \<Rightarrow> nat \<Rightarrow> nat \<Rightarrow> nat list \<Rightarrow> nat outcome" where
  "at_loop pfraction stride start [] = Returns start"
| "at_loop [] stride start (ii # i) = Undefined"
| "at_loop (n # pfraction) stride start (ii # i) =
     (if n = 0 then Undefined
      else if ii \<ge> n then Throws out_of_range
      else at_loop pfraction (stride div n) (start + (stride div n) * ii) i)"

definition at_list :: "nat list \<Rightarrow> 'a nested \<Rightarrow> nat list \<Rightarrow> 'a outcome" where
  "at_list static_sizes data_block i =
     (if length i \<noteq> length static_sizes then Throws length_error
      else case at_loop static_sizes (static_size static_sizes) 0 i of
        Returns start \<Rightarrow> deref (data data_block) start
      | Throws e \<Rightarrow> Throws e
      | Undefined \<Rightarrow> Undefined
      | Rejected \<Rightarrow> Rejected)"

text \<open>\<^verbatim>\<open>front()\<close> is \<^verbatim>\<open>*begin()\<close>, \<^verbatim>\<open>back()\<close> is \<^verbatim>\<open>*(end() - 1)\<close>.\<close>

definition front_md :: "nat list \<Rightarrow> 'a nested \<Rightarrow> 'a outcome" where
  "front_md static_sizes data_block = deref (data data_block) 0"

definition back_md :: "nat list \<Rightarrow> 'a nested \<Rightarrow> 'a outcome" where
  "back_md static_sizes data_block =
     (if size_md static_sizes = 0 then Undefined
      else deref (data data_block) (size_md static_sizes - 1))"

subsection \<open>The indexing chains of \<^verbatim>\<open>slice.hpp\<close>\<close>

text \<open>
  \<open>slice t [u, v, ...]\<close> is \<^verbatim>\<open>t[u][v]...\<close>. An index of the variadic forms has any
  built-in integer type, so it is an \<open>int\<close>. Indexing a built-in array outside its
  bounds is undefined; an element (which has no \<^verbatim>\<open>operator []\<close>) cannot be indexed at
  all, the call does not compile.
\<close>

fun slice :: "'a nested \<Rightarrow> int list \<Rightarrow> 'a nested outcome" where
  "slice t [] = Returns t"
| "slice (Arr xs) (u # v) =
     (if 0 \<le> u \<and> nat u < length xs then slice (xs ! nat u) v else Undefined)"
| "slice (Elem x) (u # v) = Rejected"

text \<open>
  \<open>checked_slice e t [u, v, ...]\<close>: the condition of the source is
  \<^verbatim>\<open>u < u_type{} || static_cast<cmp_type>(u) >= static_cast<cmp_type>(N)\<close>, and the
  throw comes before the indexing.
\<close>

fun checked_slice :: "exn \<Rightarrow> 'a nested \<Rightarrow> int list \<Rightarrow> 'a nested outcome" where
  "checked_slice e t [] = Returns t"
| "checked_slice e (Arr xs) (u # v) =
     (if u < 0 \<or> u \<ge> int (length xs) then Throws e
      else checked_slice e (xs ! nat u) v)"
| "checked_slice e (Elem x) (u # v) = Rejected"

text \<open>
  The variadic \<^verbatim>\<open>operator ()(Indices &&...i)\<close> and \<^verbatim>\<open>at(Indices &&...i)\<close>, with their
  \<^verbatim>\<open>static_assert( sizeof...(i) <= dimensionality )\<close>. When \<^verbatim>\<open>static_size\<close> is zero the
  member \<^verbatim>\<open>data_block\<close> is not an array but the \<^verbatim>\<open>std::aligned_storage\<close> placeholder,
  which cannot be indexed and is not of the declared result type: no call of these two
  members compiles then, with or without indices.
\<close>

definition call_md :: "nat list \<Rightarrow> 'a nested \<Rightarrow> int list \<Rightarrow> 'a nested outcome" where
  "call_md static_sizes data_block i =
     (if static_size static_sizes = 0 then Rejected
      else if length i \<le> length static_sizes then slice data_block i
      else Rejected)"

definition at_md :: "nat list \<Rightarrow> 'a nested \<Rightarrow> int list \<Rightarrow> 'a nested outcome" where
  "at_md static_sizes data_block i =
     (if static_size static_sizes = 0 then Rejected
      else if length i \<le> length static_sizes
      then checked_slice out_of_range data_block i
      else Rejected)"

text \<open>
  \<^verbatim>\<open>operator [](size_type i)\<close> is \<^verbatim>\<open>data_block[i]\<close>; the placeholder has no
  \<^verbatim>\<open>operator []\<close> either.
\<close>

definition subscript :: "nat list \<Rightarrow> 'a nested \<Rightarrow> nat \<Rightarrow> 'a nested outcome" where
  "subscript static_sizes data_block i =
     (if static_size static_sizes = 0 then Rejected else slice data_block [int i])"

subsection \<open>Writing through a returned reference, and aggregate initialisation\<close>

text \<open>
  The accessors return references. Assigning through the reference that
  \<^verbatim>\<open>t[u][v]...\<close> designates replaces that sub-object and nothing else.
\<close>

fun update_at :: "'a nested \<Rightarrow> nat list \<Rightarrow> 'a nested \<Rightarrow> 'a nested" where
  "update_at t [] v = v"
| "update_at (Arr xs) (u # us) v = Arr (xs[u := update_at (xs ! u) us v])"
| "update_at (Elem x) (u # us) v = Elem x"

text \<open>
  \<^verbatim>\<open>arr(i...) = v\<close>: the call is evaluated as above; an element can be assigned, a
  built-in array cannot.
\<close>

definition assign_md :: "nat list \<Rightarrow> 'a nested \<Rightarrow> int list \<Rightarrow> 'a \<Rightarrow> 'a nested outcome" where
  "assign_md static_sizes data_block i v =
     (case call_md static_sizes data_block i of
        Returns (Elem x) \<Rightarrow> Returns (update_at data_block (map nat i) (Elem v))
      | Returns (Arr xs) \<Rightarrow> Rejected
      | Throws e \<Rightarrow> Throws e
      | Undefined \<Rightarrow> Undefined
      | Rejected \<Rightarrow> Rejected)"

text \<open>
  Aggregate initialisation of \<^verbatim>\<open>T[n0][n1]...\<close> from a flat brace list: the values fill
  the elements in row-major order, and elements without a value are value-initialised.
\<close>

fun aggregate_init :: "nat list \<Rightarrow> 'a::zero list \<Rightarrow> 'a nested" where
  "aggregate_init [] vs = Elem (case vs of [] \<Rightarrow> 0 | v # rest \<Rightarrow> v)"
| "aggregate_init (n # ns) vs =
     Arr (map (\<lambda>k. aggregate_init ns (drop (k * prod_list ns) vs)) [0..<n])"

subsection \<open>The row-major offset of the specification\<close>

text \<open>
  The stride of dimension \<open>k\<close> in row-major order is the product of the extents after
  \<open>k\<close>; the offset of an index tuple is the sum of index times stride.
\<close>

definition row_major_offset :: "nat list \<Rightarrow> nat list \<Rightarrow> nat" where
  "row_major_offset ns i = (\<Sum>k<length ns. i ! k * prod_list (drop (Suc k) ns))"

section \<open>The container adapter \<^verbatim>\<open>multiarray\<close>\<close>

subsection \<open>\<^verbatim>\<open>multiarray_indexed_base<SizeType, Rank>\<close>\<close>

text \<open>
  \<^verbatim>\<open>SizeType\<close> is a built-in unsigned integer type, a word of any width; the template
  parameter \<^verbatim>\<open>Rank\<close> (\<^verbatim>\<open>dimensionality\<close>) is a value of that type and is passed to
  every function. The member \<^verbatim>\<open>stats[3][dimensionality + !dimensionality]\<close> is three
  arrays: the extents, the priorities and the strides. Reading an array at an index
  outside it is undefined in the source; the class invariant \<open>stats_ok\<close> below keeps
  every index inside.
\<close>

record (overloaded) 'a indexed_base =
  extents_i :: "'a word list"
  priorities_i :: "'a word list"
  strides_i :: "'a word list"

definition stats_length :: "'a::len word \<Rightarrow> nat" where
  "stats_length Rank = unat Rank + (if Rank = 0 then 1 else 0)"

definition required_size :: "('a::len, 'z) indexed_base_scheme \<Rightarrow> 'a word" where
  "required_size s =
     (let major_index = unat (priorities_i s ! 0)
      in extents_i s ! major_index * strides_i s ! major_index)"

definition extents :: "'a::len word \<Rightarrow> ('a, 'z) indexed_base_scheme \<Rightarrow> 'a word list" where
  "extents Rank s = take (unat Rank) (extents_i s)"

definition priorities :: "'a::len word \<Rightarrow> ('a, 'z) indexed_base_scheme \<Rightarrow> 'a word list" where
  "priorities Rank s = take (unat Rank) (priorities_i s)"

text \<open>
  The loop of \<^verbatim>\<open>update_extents\<close> that looks for an overflow of the product; it
  answers whether \<^verbatim>\<open>std::overflow_error\<close> is thrown. \<^verbatim>\<open>max\<close> is \<open>- 1\<close>, the
  largest word. The loop starts with \<^verbatim>\<open>limit = 1\<close> after the zero extents have been
  rejected, so \<^verbatim>\<open>max / limit\<close> never divides by zero (\<open>product_overflows_iff\<close>).
\<close>

fun product_overflows :: "'a::len word \<Rightarrow> 'a word list \<Rightarrow> bool" where
  "product_overflows limit [] = False"
| "product_overflows limit (x # xs) =
     (if x > (- 1) div limit then True else product_overflows (limit * x) xs)"

text \<open>
  A mutator returns the exception it throws, if any, and the state the object is left
  in. \<^verbatim>\<open>std::copy( eb, ee, std::begin(stats[ extents_i ]) )\<close> overwrites the first
  elements of the array.
\<close>

definition update_extents ::
  "'a::len word list \<Rightarrow> ('a, 'z) indexed_base_scheme \<Rightarrow> exn option \<times> ('a, 'z) indexed_base_scheme" where
  "update_extents e s =
     (if 0 \<in> set e then (Some out_of_range, s)
      else if product_overflows 1 e then (Some overflow_error, s)
      else (None, s\<lparr>extents_i := e @ drop (length e) (extents_i s)\<rparr>))"

text \<open>\<^verbatim>\<open>std::iota\<close> from 0 over an array of \<^verbatim>\<open>Rank\<close> elements.\<close>

definition row_major_order :: "'a::len word \<Rightarrow> 'a word list" where
  "row_major_order Rank = map of_nat [0..<unat Rank]"

text \<open>
  \<^verbatim>\<open>std::is_permutation(first1, last1, first2)\<close>: every element of the first range
  can be matched with an element of the second range of its own, and none is left.
\<close>

fun is_permutation :: "'b list \<Rightarrow> 'b list \<Rightarrow> bool" where
  "is_permutation [] ys = (ys = [])"
| "is_permutation (x # xs) ys = (x \<in> set ys \<and> is_permutation xs (remove1 x ys))"

definition update_priorities ::
  "'a::len word \<Rightarrow> 'a word list \<Rightarrow> ('a, 'z) indexed_base_scheme
   \<Rightarrow> exn option \<times> ('a, 'z) indexed_base_scheme" where
  "update_priorities Rank p s =
     (if list_ex (\<lambda>x. x \<ge> Rank) p then (Some out_of_range, s)
      else if \<not> is_permutation p (row_major_order Rank) then (Some invalid_argument, s)
      else (None, s\<lparr>priorities_i := p @ drop (length p) (priorities_i s)\<rparr>))"

text \<open>
  \<^verbatim>\<open>recalculate_strides\<close>: the loop runs over the priorities from the most major one,
  dividing the product of all extents by the extent of each dimension in turn. It is
  only called after \<^verbatim>\<open>update_extents\<close> or \<^verbatim>\<open>update_priorities\<close> has returned, when no
  extent is zero.
\<close>

fun strides_loop ::
  "'a::len word list \<Rightarrow> 'a word \<Rightarrow> 'a word list \<Rightarrow> 'a word list \<Rightarrow> 'a word list" where
  "strides_loop ext product [] strides = strides"
| "strides_loop ext product (which_index # rest) strides =
     (let product' = product div ext ! unat which_index
      in strides_loop ext product' rest (strides[unat which_index := product']))"

definition recalculate_strides ::
  "'a::len word \<Rightarrow> ('a, 'z) indexed_base_scheme \<Rightarrow> ('a, 'z) indexed_base_scheme" where
  "recalculate_strides Rank s =
     s\<lparr>strides_i := strides_loop (extents_i s) (foldl (*) 1 (extents_i s))
          (take (unat Rank) (priorities_i s)) (strides_i s)\<rparr>"

text \<open>The public mutators \<^verbatim>\<open>extents(e)\<close>, \<^verbatim>\<open>priorities(p)\<close> and their relatives.\<close>

definition set_extents ::
  "'a::len word \<Rightarrow> 'a word list \<Rightarrow> ('a, 'z) indexed_base_scheme
   \<Rightarrow> exn option \<times> ('a, 'z) indexed_base_scheme" where
  "set_extents Rank e s =
     (case update_extents e s of
        (Some x, s') \<Rightarrow> (Some x, s')
      | (None, s') \<Rightarrow> (None, recalculate_strides Rank s'))"

definition set_priorities ::
  "'a::len word \<Rightarrow> 'a word list \<Rightarrow> ('a, 'z) indexed_base_scheme
   \<Rightarrow> exn option \<times> ('a, 'z) indexed_base_scheme" where
  "set_priorities Rank p s =
     (case update_priorities Rank p s of
        (Some x, s') \<Rightarrow> (Some x, s')
      | (None, s') \<Rightarrow> (None, recalculate_strides Rank s'))"

definition use_row_major_order ::
  "'a::len word \<Rightarrow> ('a, 'z) indexed_base_scheme \<Rightarrow> exn option \<times> ('a, 'z) indexed_base_scheme" where
  "use_row_major_order Rank s = set_priorities Rank (row_major_order Rank) s"

definition use_column_major_order ::
  "'a::len word \<Rightarrow> ('a, 'z) indexed_base_scheme \<Rightarrow> exn option \<times> ('a, 'z) indexed_base_scheme" where
  "use_column_major_order Rank s =
     set_priorities Rank (map (\<lambda>i. Rank - 1 - of_nat i) [0..<unat Rank]) s"

text \<open>
  \<^verbatim>\<open>extents_and_priorities\<close>: the \<^verbatim>\<open>catch\<close> block puts the saved extents back and
  rethrows; were the restoring call to throw, its exception would leave the function.
\<close>

definition extents_and_priorities ::
  "'a::len word \<Rightarrow> 'a word list \<Rightarrow> 'a word list \<Rightarrow> ('a, 'z) indexed_base_scheme
   \<Rightarrow> exn option \<times> ('a, 'z) indexed_base_scheme" where
  "extents_and_priorities Rank e p s =
     (let save = extents Rank s in
      case update_extents e s of
        (Some x, s1) \<Rightarrow> (Some x, s1)
      | (None, s1) \<Rightarrow>
          (case update_priorities Rank p s1 of
             (Some x, s2) \<Rightarrow>
               (case update_extents save s2 of
                  (Some y, s3) \<Rightarrow> (Some y, s3)
                | (None, s3) \<Rightarrow> (Some x, s3))
           | (None, s2) \<Rightarrow> (None, recalculate_strides Rank s2)))"

text \<open>\<^verbatim>\<open>first_index_pack\<close> and \<^verbatim>\<open>advance_index_pack\<close>; the loop goes from the
  least major priority to the most major one.\<close>

definition first_index_pack :: "'a::len word \<Rightarrow> 'a word list" where
  "first_index_pack Rank = replicate (unat Rank) 0"

fun advance_loop ::
  "'a::len word list \<Rightarrow> 'a word list \<Rightarrow> bool \<Rightarrow> 'a word list \<Rightarrow> bool \<times> 'a word list" where
  "advance_loop ext [] turnover indexes = (turnover, indexes)"
| "advance_loop ext (index # rest) turnover indexes =
     (let k = unat index;
          incremented = indexes ! k + (if turnover then 1 else 0);
          turnover' = (incremented \<ge> ext ! k);
          reset = incremented * (if turnover' then 0 else 1)
      in advance_loop ext rest turnover' (indexes[k := reset]))"

definition advance_index_pack ::
  "'a::len word \<Rightarrow> ('a, 'z) indexed_base_scheme \<Rightarrow> 'a word list \<Rightarrow> bool \<times> 'a word list" where
  "advance_index_pack Rank s indexes =
     advance_loop (extents_i s) (rev (take (unat Rank) (priorities_i s))) True indexes"

subsection \<open>\<^verbatim>\<open>multiarray<Element, Rank, Container>\<close>\<close>

text \<open>
  The adapter adds the container \<^verbatim>\<open>c\<close> of the storage base to the index base. The
  container is a sequence; its \<^verbatim>\<open>size()\<close> is a \<^verbatim>\<open>size_type\<close>.
\<close>

record (overloaded) ('a, 'e) multiarray = "'a indexed_base" +
  c :: "'e list"

definition size_c :: "('a::len, 'e) multiarray \<Rightarrow> 'a word" where
  "size_c m = of_nat (length (c m))"

text \<open>
  The constructors: the index base is put into the state with one element, then
  \<^verbatim>\<open>resize_to_fit\<close> makes the first extent the size of the container.
\<close>

definition indexed_base_init :: "'a::len word \<Rightarrow> 'e list \<Rightarrow> ('a, 'e) multiarray" where
  "indexed_base_init Rank cc =
     \<lparr>extents_i = replicate (stats_length Rank) 1,
      priorities_i = map of_nat [0..<stats_length Rank],
      strides_i = replicate (stats_length Rank) 1,
      c = cc\<rparr>"

definition resize_to_fit ::
  "'a::len word \<Rightarrow> ('a, 'e) multiarray \<Rightarrow> exn option \<times> ('a, 'e) multiarray" where
  "resize_to_fit Rank m =
     (let new_size = (if Rank \<noteq> 0 \<and> c m \<noteq> [] then size_c m else 1);
          e = (replicate (unat Rank) 1)[0 := new_size]
      in set_extents Rank e m)"

definition construct :: "'a::len word \<Rightarrow> 'e list \<Rightarrow> exn option \<times> ('a, 'e) multiarray" where
  "construct Rank cc = resize_to_fit Rank (indexed_base_init Rank cc)"

text \<open>
  \<^verbatim>\<open>apply\<close>. The callable \<open>f\<close> has a state of its own, receives the element by
  reference (it returns the value the element has afterwards) and the index pack.
\<close>

fun apply_loop ::
  "('s \<Rightarrow> 'e \<Rightarrow> 'a word list \<Rightarrow> 's \<times> 'e) \<Rightarrow> 'a::len word \<Rightarrow> ('a, 'z) indexed_base_scheme
   \<Rightarrow> nat \<Rightarrow> nat \<Rightarrow> 'a word list \<Rightarrow> 's \<Rightarrow> 'e list \<Rightarrow> 's \<times> 'e list" where
  "apply_loop f Rank s 0 current indexes st cs = (st, cs)"
| "apply_loop f Rank s (Suc limit) current indexes st cs =
     (case f st (cs ! current) indexes of
        (st', x') \<Rightarrow>
          apply_loop f Rank s limit (Suc current) (snd (advance_index_pack Rank s indexes))
            st' (cs[current := x']))"

definition apply_md ::
  "('s \<Rightarrow> 'e \<Rightarrow> 'a word list \<Rightarrow> 's \<times> 'e) \<Rightarrow> 'a::len word \<Rightarrow> 's \<Rightarrow> ('a, 'e) multiarray
   \<Rightarrow> 's \<times> ('a, 'e) multiarray" where
  "apply_md f Rank st m =
     (let limit = min (required_size m) (size_c m)
      in case apply_loop f Rank m (unat limit) 0 (first_index_pack Rank) st (c m) of
           (st', cs') \<Rightarrow> (st', m\<lparr>c := cs'\<rparr>))"

subsection \<open>The strides and the counting sequence of the specification\<close>

text \<open>
  In a priority list (most major dimension first) the dimensions less major than \<open>d\<close>
  are those after \<open>d\<close>. The stride of \<open>d\<close> is the product of their extents, and the
  \<open>j\<close>-th tuple of the mixed-radix counting sequence has, in dimension \<open>d\<close>, the digit
  \<open>(j div stride) mod extent\<close>.
\<close>

definition less_major :: "nat list \<Rightarrow> nat \<Rightarrow> nat list" where
  "less_major p d = tl (dropWhile (\<lambda>q. q \<noteq> d) p)"

definition spec_stride :: "nat list \<Rightarrow> nat list \<Rightarrow> nat \<Rightarrow> nat" where
  "spec_stride e p d = prod_list (map (\<lambda>q. e ! q) (less_major p d))"

definition mixed_radix_tuple :: "nat list \<Rightarrow> nat list \<Rightarrow> nat \<Rightarrow> nat list" where
  "mixed_radix_tuple e p j = map (\<lambda>d. (j div spec_stride e p d) mod e ! d) [0..<length p]"

definition strides_agree :: "'a::len word \<Rightarrow> ('a, 'z) indexed_base_scheme \<Rightarrow> bool" where
  "strides_agree Rank s =
     list_all (\<lambda>d. unat (strides_i s ! d)
         = spec_stride (map unat (extents Rank s)) (map unat (priorities Rank s)) d)
       [0..<unat Rank]"

text \<open>
  The class invariant. \<open>shape_ok\<close>: the arrays have their declared length, no extent
  is zero, the product of the extents is a \<^verbatim>\<open>size_type\<close>, and the priorities are a
  permutation of the dimensions; without dimensions the one-element arrays keep the
  values the constructor gave them. \<open>stats_ok\<close> adds that the cached strides are those
  of the specification.
\<close>

definition shape_ok :: "'a::len word \<Rightarrow> ('a, 'z) indexed_base_scheme \<Rightarrow> bool" where
  "shape_ok Rank s =
     (length (extents_i s) = stats_length Rank
      \<and> length (priorities_i s) = stats_length Rank
      \<and> length (strides_i s) = stats_length Rank
      \<and> (if Rank = 0 then extents_i s = [1] \<and> priorities_i s = [0] \<and> strides_i s = [1]
         else True)
      \<and> 0 \<notin> set (extents_i s)
      \<and> prod_list (map unat (extents_i s)) \<le> unat (- 1 :: 'a word)
      \<and> is_permutation (priorities Rank s) (row_major_order Rank))"

definition stats_ok :: "'a::len word \<Rightarrow> ('a, 'z) indexed_base_scheme \<Rightarrow> bool" where
  "stats_ok Rank s = (shape_ok Rank s \<and> strides_agree Rank s)"

text \<open>
  The adapters a program can hold: constructed from a container (whose size is a
  \<^verbatim>\<open>size_type\<close>), then changed by the mutators, whether they return or throw, and by
  writes to the elements.
\<close>

inductive reachable :: "'a::len word \<Rightarrow> ('a, 'e) multiarray \<Rightarrow> bool" for Rank :: "'a word" where
  constructed:
    "length cc \<le> unat (- 1 :: 'a word) \<Longrightarrow> reachable Rank (snd (construct Rank cc))"
| after_extents:
    "reachable Rank m \<Longrightarrow> length e = unat Rank \<Longrightarrow> reachable Rank (snd (set_extents Rank e m))"
| after_priorities:
    "reachable Rank m \<Longrightarrow> length p = unat Rank
     \<Longrightarrow> reachable Rank (snd (set_priorities Rank p m))"
| after_extents_and_priorities:
    "reachable Rank m \<Longrightarrow> length e = unat Rank \<Longrightarrow> length p = unat Rank
     \<Longrightarrow> reachable Rank (snd (extents_and_priorities Rank e p m))"
| after_row_major:
    "reachable Rank m \<Longrightarrow> reachable Rank (snd (use_row_major_order Rank m))"
| after_column_major:
    "reachable Rank m \<Longrightarrow> reachable Rank (snd (use_column_major_order Rank m))"
| after_writes:
    "reachable Rank m \<Longrightarrow> length cs = length (c m) \<Longrightarrow> reachable Rank (m\<lparr>c := cs\<rparr>)"

section \<open>Properties of the base case\<close>

text \<open>
  C10. For the array without extents, \<^verbatim>\<open>static_size\<close> and \<^verbatim>\<open>size()\<close> are 1,
  \<^verbatim>\<open>empty()\<close> is false, \<^verbatim>\<open>operator ()()\<close> and \<^verbatim>\<open>at()\<close> return the only element,
  \<^verbatim>\<open>at\<close> with the empty index list returns it too, and \<^verbatim>\<open>at\<close> with any other index
  list throws \<^verbatim>\<open>std::length_error\<close>.
\<close>

theorem rank0_array:
  "static_size0 = 1 \<and> size0 x = 1 \<and> \<not> empty0 x \<and> call0 x = x \<and> at0 x = x
   \<and> at0_list x [] = Returns x
   \<and> (i \<noteq> [] \<longrightarrow> at0_list x i = Throws length_error)"
  by (simp add: static_size0_def size0_def empty0_def call0_def at0_def at0_list_def)

theorem rank0_array_witness:
  "[5::nat] \<noteq> [] \<and> at0_list (7::int) [5] = Throws length_error
   \<and> at0_list (7::int) [] = Returns 7 \<and> size0 (7::int) = 1 \<and> \<not> empty0 (7::int)"
  using rank0_array [of "7::int" "[5::nat]"] by simp

section \<open>Properties of the recursive case\<close>

lemma row_major_offset_Nil: "row_major_offset [] i = 0"
  by (simp add: row_major_offset_def)

lemma row_major_offset_Cons:
  "row_major_offset (n # ns) (u # i) = u * prod_list ns + row_major_offset ns i"
  by (simp add: row_major_offset_def sum.lessThan_Suc_shift del: sum.lessThan_Suc)

lemma row_major_offset_less:
  "list_all2 (<) i ns \<Longrightarrow> row_major_offset ns i < prod_list ns"
proof (induction i ns rule: list_all2_induct)
  case Nil
  then show ?case by (simp add: row_major_offset_Nil)
next
  case (Cons u i n ns)
  have "u * prod_list ns + row_major_offset ns i < u * prod_list ns + prod_list ns"
    using Cons.IH by simp
  also have "\<dots> = Suc u * prod_list ns" by simp
  also have "\<dots> \<le> n * prod_list ns"
    using Cons.hyps(1) by (intro mult_le_mono1) simp
  finally show ?case by (simp add: row_major_offset_Cons)
qed

lemma length_data: "has_shape ns t \<Longrightarrow> length (data t) = prod_list ns"
proof (induction ns t rule: has_shape.induct)
  case (2 n ns xs)
  have "\<And>x. x \<in> set xs \<Longrightarrow> length (data x) = prod_list ns"
    using 2 by (auto simp: list_all_iff)
  then have "map (length \<circ> data) xs = replicate (length xs) (prod_list ns)"
    by (auto simp: map_replicate_const[symmetric] intro!: map_cong)
  then show ?case using 2 by (simp add: length_concat sum_list_replicate o_def)
qed simp_all

lemma nth_concat_uniform:
  "\<lbrakk>\<forall>x\<in>set xss. length x = m; u < length xss; j < m\<rbrakk>
   \<Longrightarrow> concat xss ! (u * m + j) = xss ! u ! j"
proof (induction xss arbitrary: u)
  case Nil then show ?case by simp
next
  case (Cons x xss)
  show ?case
  proof (cases u)
    case 0 then show ?thesis using Cons.prems by (simp add: nth_append)
  next
    case (Suc u')
    then show ?thesis using Cons by (simp add: nth_append)
  qed
qed

lemma update_concat_uniform:
  "\<lbrakk>\<forall>x\<in>set xss. length x = m; u < length xss; j < m\<rbrakk>
   \<Longrightarrow> concat (xss[u := (xss ! u)[j := v]]) = (concat xss)[u * m + j := v]"
proof (induction xss arbitrary: u)
  case Nil then show ?case by simp
next
  case (Cons x xss)
  show ?case
  proof (cases u)
    case 0 then show ?thesis using Cons.prems by (simp add: list_update_append)
  next
    case (Suc u')
    then show ?thesis using Cons by (simp add: list_update_append)
  qed
qed

lemma slice_in_range:
  "has_shape ns t \<Longrightarrow> list_all2 (<) i ns
   \<Longrightarrow> slice t (map int i) = Returns (Elem (data t ! row_major_offset ns i))"
proof (induction ns t arbitrary: i rule: has_shape.induct)
  case (1 x)
  then show ?case by (simp add: row_major_offset_Nil)
next
  case (2 n ns xs)
  from "2.prems"(2) obtain u i' where i: "i = u # i'" "u < n" "list_all2 (<) i' ns"
    by (auto simp: list_all2_Cons2)
  have sh: "has_shape ns (xs ! u)" and len: "length xs = n"
    using "2.prems"(1) i(2) by (auto simp: list_all_length)
  have lens: "\<forall>x\<in>set (map data xs). length x = prod_list ns"
    using "2.prems"(1) by (auto simp: list_all_iff length_data)
  have "slice (xs ! u) (map int i') = Returns (Elem (data (xs ! u) ! row_major_offset ns i'))"
    using "2.IH" sh i(3) i(2) len by (metis nth_mem)
  moreover have "concat (map data xs) ! (u * prod_list ns + row_major_offset ns i')
      = data (xs ! u) ! row_major_offset ns i'"
    using nth_concat_uniform[OF lens, of u "row_major_offset ns i'"] i(2) len
      row_major_offset_less[OF i(3)] by simp
  ultimately show ?case using i len by (simp add: row_major_offset_Cons)
qed simp_all

lemma has_shape_update_at:
  "has_shape ns t \<Longrightarrow> list_all2 (<) i ns \<Longrightarrow> has_shape ns (update_at t i (Elem v))"
proof (induction ns t arbitrary: i rule: has_shape.induct)
  case (2 n ns xs)
  from "2.prems"(2) obtain u i' where i: "i = u # i'" "u < n" "list_all2 (<) i' ns"
    by (auto simp: list_all2_Cons2)
  have sh: "has_shape ns (xs ! u)" and len: "length xs = n"
    using "2.prems"(1) i(2) by (auto simp: list_all_length)
  have "has_shape ns (update_at (xs ! u) i' (Elem v))"
    using "2.IH" sh i(3) i(2) len by (metis nth_mem)
  then show ?case using "2.prems"(1) i
    by (auto simp: list_all_length nth_list_update)
qed simp_all

lemma data_update_at:
  "has_shape ns t \<Longrightarrow> list_all2 (<) i ns
   \<Longrightarrow> data (update_at t i (Elem v)) = (data t)[row_major_offset ns i := v]"
proof (induction ns t arbitrary: i rule: has_shape.induct)
  case (1 x)
  then show ?case by (simp add: row_major_offset_Nil)
next
  case (2 n ns xs)
  from "2.prems"(2) obtain u i' where i: "i = u # i'" "u < n" "list_all2 (<) i' ns"
    by (auto simp: list_all2_Cons2)
  have sh: "has_shape ns (xs ! u)" and len: "length xs = n"
    using "2.prems"(1) i(2) by (auto simp: list_all_length)
  have lens: "\<forall>x\<in>set (map data xs). length x = prod_list ns"
    using "2.prems"(1) by (auto simp: list_all_iff length_data)
  have IH: "data (update_at (xs ! u) i' (Elem v)) = (data (xs ! u))[row_major_offset ns i' := v]"
    using "2.IH" sh i(3) i(2) len by (metis nth_mem)
  have "concat ((map data xs)[u := (map data xs ! u)[row_major_offset ns i' := v]])
      = (concat (map data xs))[u * prod_list ns + row_major_offset ns i' := v]"
    using update_concat_uniform[OF lens, of u "row_major_offset ns i'" v] i(2) len
      row_major_offset_less[OF i(3)] by simp
  then show ?case using i len IH by (simp add: row_major_offset_Cons map_update)
qed simp_all

lemma subscript_loop_in_range:
  "list_all2 (<) i ns
   \<Longrightarrow> subscript_loop ns (prod_list ns) start i = Returns (start + row_major_offset ns i)"
proof (induction i ns arbitrary: start rule: list_all2_induct)
  case Nil
  then show ?case by (simp add: row_major_offset_Nil)
next
  case (Cons u i n ns)
  then show ?case by (simp add: row_major_offset_Cons algebra_simps)
qed

lemma at_loop_in_range:
  "list_all2 (<) i ns
   \<Longrightarrow> at_loop ns (prod_list ns) start i = Returns (start + row_major_offset ns i)"
proof (induction i ns arbitrary: start rule: list_all2_induct)
  case Nil
  then show ?case by (simp add: row_major_offset_Nil)
next
  case (Cons u i n ns)
  then show ?case by (simp add: row_major_offset_Cons algebra_simps)
qed

lemma static_size_prod: "static_size ns = prod_list ns"
  by (cases ns) simp_all

lemma checked_slice_in_range:
  "has_shape ns t \<Longrightarrow> length i \<le> length ns
   \<Longrightarrow> \<forall>k<length i. 0 \<le> i ! k \<and> i ! k < int (ns ! k)
   \<Longrightarrow> checked_slice e t i = slice t i \<and> (\<exists>s. slice t i = Returns s)"
proof (induction ns t arbitrary: i rule: has_shape.induct)
  case (1 x)
  then show ?case by simp
next
  case (2 n ns xs)
  show ?case
  proof (cases i)
    case Nil
    then show ?thesis by simp
  next
    case (Cons u i')
    have u: "0 \<le> u" "u < int n" using "2.prems"(3)[rule_format, of 0] Cons by auto
    have rest: "\<forall>k<length i'. 0 \<le> i' ! k \<and> i' ! k < int (ns ! k)"
      using "2.prems"(3) Cons by fastforce
    have sh: "has_shape ns (xs ! nat u)" and len: "length xs = n"
      using "2.prems"(1) u by (auto simp: list_all_length)
    have "checked_slice e (xs ! nat u) i' = slice (xs ! nat u) i'
        \<and> (\<exists>s. slice (xs ! nat u) i' = Returns s)"
      using "2.IH"[of "xs ! nat u" i'] sh rest "2.prems"(2) Cons u len by simp
    then show ?thesis using Cons u len by auto
  qed
qed simp_all

lemma at_loop_checks:
  "\<lbrakk>\<forall>n\<in>set ns. 0 < n; length i = length ns\<rbrakk>
   \<Longrightarrow> at_loop ns (prod_list ns) start i =
       (if \<exists>k<length ns. ns ! k \<le> i ! k then Throws out_of_range
        else Returns (start + row_major_offset ns i))"
proof (induction ns arbitrary: i start)
  case Nil
  then show ?case by (simp add: row_major_offset_Nil)
next
  case (Cons n ns)
  then obtain u i' where i: "i = u # i'" "length i' = length ns"
    by (cases i) auto
  have ex: "(\<exists>k<Suc (length ns). (n # ns) ! k \<le> (u # i') ! k)
      \<longleftrightarrow> n \<le> u \<or> (\<exists>k<length ns. ns ! k \<le> i' ! k)"
    by (auto simp: less_Suc_eq_0_disj)
  show ?case using Cons.IH[of i' "start + prod_list ns * u"] Cons.prems i ex
    by (simp add: row_major_offset_Cons algebra_simps)
qed

lemma at_list_positive_extents:
  assumes "has_shape ns t" and "\<forall>n\<in>set ns. 0 < n"
  shows "at_list ns t i =
      (if length i \<noteq> length ns then Throws length_error
       else if \<exists>k<length ns. ns ! k \<le> i ! k then Throws out_of_range
       else Returns (data t ! row_major_offset ns i))"
proof (cases "length i = length ns")
  case False
  then show ?thesis by (simp add: at_list_def)
next
  case True
  show ?thesis
  proof (cases "\<exists>k<length ns. ns ! k \<le> i ! k")
    case True
    then show ?thesis
      using at_loop_checks[OF assms(2) \<open>length i = length ns\<close>, of 0]
      by (simp add: at_list_def static_size_prod)
  next
    case False
    then have "list_all2 (<) i ns"
      using \<open>length i = length ns\<close> by (auto simp: list_all2_conv_all_nth not_le)
    from row_major_offset_less[OF this] length_data[OF assms(1)] False
    show ?thesis
      using at_loop_checks[OF assms(2) \<open>length i = length ns\<close>, of 0]
        \<open>length i = length ns\<close>
      by (simp add: at_list_def static_size_prod deref_def)
  qed
qed

lemma subscript_loop_never_throws:
  "subscript_loop p stride start i \<noteq> Throws e \<and> subscript_loop p stride start i \<noteq> Rejected"
  by (induction p stride start i rule: subscript_loop.induct) simp_all

lemma subscript_loop_too_long:
  "length p < length i \<Longrightarrow> subscript_loop p stride start i = Undefined"
  by (induction p stride start i rule: subscript_loop.induct) simp_all

lemma subscript_list_never_throws:
  "subscript_list ns t i \<noteq> Throws e \<and> subscript_list ns t i \<noteq> Rejected"
  using subscript_loop_never_throws[of ns "static_size ns" 0 i]
  by (auto simp: subscript_list_def deref_def split: outcome.splits)

text \<open>
  C1. For an array of shape \<open>ns\<close> and an index tuple \<open>i\<close> with every index below its
  extent: the variadic \<^verbatim>\<open>operator ()\<close> returns the element that lies at
  \<^verbatim>\<open>data()[offset]\<close>, where \<open>offset\<close> is the sum of index times row-major stride, and so
  does the list form; a value written through \<^verbatim>\<open>operator ()\<close> is the value read back
  through the same call, and the write changes exactly position \<open>offset\<close> of the block.
  For \<^verbatim>\<open>array_md<int, 2, 3>\<close> initialised with \<^verbatim>\<open>{2, 3, 5, 7, 11, 13}\<close>:
  \<^verbatim>\<open>arr(0,0) == 2\<close>, \<^verbatim>\<open>arr(0,2) == 5\<close>, \<^verbatim>\<open>arr(1,0) == 7\<close>, \<^verbatim>\<open>arr.back() == 13\<close>,
  \<^verbatim>\<open>arr.size() == 6\<close>.
\<close>

theorem array_md_round_trip:
  "(has_shape ns t \<and> list_all2 (<) i ns \<longrightarrow>
       row_major_offset ns i < size_md ns
     \<and> call_md ns t (map int i) = Returns (Elem (data t ! row_major_offset ns i))
     \<and> call_list ns t i = Returns (data t ! row_major_offset ns i)
     \<and> (\<exists>t'. assign_md ns t (map int i) v = Returns t'
            \<and> call_md ns t' (map int i) = Returns (Elem v)
            \<and> data t' = (data t)[row_major_offset ns i := v]))
   \<and> call_md [2, 3] (aggregate_init [2, 3] [2, 3, 5, 7, 11, 13 :: int]) [0, 0] = Returns (Elem 2)
   \<and> call_md [2, 3] (aggregate_init [2, 3] [2, 3, 5, 7, 11, 13 :: int]) [0, 2] = Returns (Elem 5)
   \<and> call_md [2, 3] (aggregate_init [2, 3] [2, 3, 5, 7, 11, 13 :: int]) [1, 0] = Returns (Elem 7)
   \<and> back_md [2, 3] (aggregate_init [2, 3] [2, 3, 5, 7, 11, 13 :: int]) = Returns 13
   \<and> size_md [2, 3] = 6"
proof -
  have general: "row_major_offset ns i < size_md ns
     \<and> call_md ns t (map int i) = Returns (Elem (data t ! row_major_offset ns i))
     \<and> call_list ns t i = Returns (data t ! row_major_offset ns i)
     \<and> (\<exists>t'. assign_md ns t (map int i) v = Returns t'
            \<and> call_md ns t' (map int i) = Returns (Elem v)
            \<and> data t' = (data t)[row_major_offset ns i := v])"
    if sh: "has_shape ns t" and rng: "list_all2 (<) i ns"
  proof -
    let ?off = "row_major_offset ns i"
    have len: "length i = length ns" using rng by (rule list_all2_lengthD)
    have off: "?off < prod_list ns" by (rule row_major_offset_less[OF rng])
    have nz: "static_size ns \<noteq> 0" using off by (simp add: static_size_prod)
    have rd: "call_md ns t (map int i) = Returns (Elem (data t ! ?off))"
      using slice_in_range[OF sh rng] len nz by (simp add: call_md_def)
    have ls: "call_list ns t i = Returns (data t ! ?off)"
      using subscript_loop_in_range[OF rng, of 0] off length_data[OF sh]
      by (simp add: call_list_def subscript_list_def static_size_prod deref_def)
    let ?t' = "update_at t i (Elem v)"
    have wr: "assign_md ns t (map int i) v = Returns ?t'"
      using rd by (simp add: assign_md_def o_def)
    have sh': "has_shape ns ?t'" by (rule has_shape_update_at[OF sh rng])
    have dt: "data ?t' = (data t)[?off := v]" by (rule data_update_at[OF sh rng])
    have "call_md ns ?t' (map int i) = Returns (Elem (data ?t' ! ?off))"
      using slice_in_range[OF sh' rng] len nz by (simp add: call_md_def)
    then have rb: "call_md ns ?t' (map int i) = Returns (Elem v)"
      using dt off length_data[OF sh] by simp
    show ?thesis using off rd ls wr rb dt by (simp add: size_md_def static_size_prod)
  qed
  have a: "aggregate_init [2, 3] [2, 3, 5, 7, 11, 13 :: int]
      = Arr [Arr [Elem 2, Elem 3, Elem 5], Arr [Elem 7, Elem 11, Elem 13]]"
    by code_simp
  have s1: "call_md [2, 3] (aggregate_init [2, 3] [2, 3, 5, 7, 11, 13 :: int]) [0, 0] = Returns (Elem 2)"
    unfolding a by (simp add: call_md_def)
  have s2: "call_md [2, 3] (aggregate_init [2, 3] [2, 3, 5, 7, 11, 13 :: int]) [0, 2] = Returns (Elem 5)"
    unfolding a by (simp add: call_md_def)
  have s3: "call_md [2, 3] (aggregate_init [2, 3] [2, 3, 5, 7, 11, 13 :: int]) [1, 0] = Returns (Elem 7)"
    unfolding a by (simp add: call_md_def)
  have s4: "back_md [2, 3] (aggregate_init [2, 3] [2, 3, 5, 7, 11, 13 :: int]) = Returns 13"
    unfolding a by (simp add: back_md_def size_md_def deref_def)
  have s5: "size_md [2, 3] = 6" by (simp add: size_md_def)
  show ?thesis using general s1 s2 s3 s4 s5 by blast
qed

theorem array_md_round_trip_witness:
  "has_shape [2, 3] (aggregate_init [2, 3] [2, 3, 5, 7, 11, 13 :: int])
   \<and> list_all2 (<) [1, 2] [2, 3 :: nat]
   \<and> row_major_offset [2, 3] [1, 2] = 5
   \<and> call_list [2, 3] (aggregate_init [2, 3] [2, 3, 5, 7, 11, 13 :: int]) [1, 2] = Returns 13
   \<and> (\<exists>t'. assign_md [2, 3] (aggregate_init [2, 3] [2, 3, 5, 7, 11, 13 :: int]) [1, 2] 17 = Returns t'
          \<and> call_md [2, 3] t' [1, 2] = Returns (Elem 17)
          \<and> data t' = [2, 3, 5, 7, 11, 17])"
proof -
  have a: "aggregate_init [2, 3] [2, 3, 5, 7, 11, 13 :: int]
      = Arr [Arr [Elem 2, Elem 3, Elem 5], Arr [Elem 7, Elem 11, Elem 13]]"
    by code_simp
  have h: "has_shape [2, 3] (aggregate_init [2, 3] [2, 3, 5, 7, 11, 13 :: int])"
    unfolding a by simp
  have r: "list_all2 (<) [1, 2] [2, 3 :: nat]" by simp
  have o: "row_major_offset [2, 3] [1, 2] = 5"
    by (simp add: row_major_offset_Cons row_major_offset_Nil)
  have d: "data (aggregate_init [2, 3] [2, 3, 5, 7, 11, 13 :: int]) = [2, 3, 5, 7, 11, 13]"
    unfolding a by simp
  show ?thesis
    using array_md_round_trip[of "[2, 3]" "aggregate_init [2, 3] [2, 3, 5, 7, 11, 13 :: int]"
        "[1, 2]" 17] h r
    unfolding o d by simp
qed

text \<open>
  C8. On an index tuple with one index per dimension, each within its extent, the
  checked accessor \<^verbatim>\<open>at(...)\<close> and the unchecked accessor \<^verbatim>\<open>operator ()(...)\<close> return
  the same element, the one at the row-major offset of the tuple; the two list forms
  return that element as well. On every in-range tuple of up to rank indices
  \<^verbatim>\<open>checked_slice\<close> computes what \<^verbatim>\<open>slice\<close> computes, so the two variadic accessors
  agree there too: both return the sub-object that \<^verbatim>\<open>slice\<close> returns when the array has
  elements, and neither compiles when \<^verbatim>\<open>static_size\<close> is zero.
\<close>

theorem checked_agrees_with_unchecked:
  "has_shape ns t \<Longrightarrow>
     (list_all2 (\<lambda>u n. 0 \<le> u \<and> u < int n) i ns \<longrightarrow>
        at_md ns t i = call_md ns t i
      \<and> call_md ns t i = Returns (Elem (data t ! row_major_offset ns (map nat i)))
      \<and> checked_slice e t i = slice t i)
   \<and> (length k \<le> length ns
      \<and> list_all2 (\<lambda>u n. 0 \<le> u \<and> u < int n) k (take (length k) ns) \<longrightarrow>
        checked_slice e t k = slice t k
      \<and> at_md ns t k = call_md ns t k
      \<and> (\<exists>s. slice t k = Returns s)
      \<and> call_md ns t k = (if static_size ns = 0 then Rejected else slice t k))
   \<and> (list_all2 (<) j ns \<longrightarrow>
        at_list ns t j = call_list ns t j
      \<and> call_list ns t j = Returns (data t ! row_major_offset ns j))"
proof -
  assume sh: "has_shape ns t"
  have partial: "checked_slice e' t k = slice t k \<and> at_md ns t k = call_md ns t k
      \<and> (\<exists>s. slice t k = Returns s)
      \<and> call_md ns t k = (if static_size ns = 0 then Rejected else slice t k)"
    if le: "length k \<le> length ns"
      and rng: "list_all2 (\<lambda>u n. 0 \<le> u \<and> u < int n) k (take (length k) ns)"
    for k e'
  proof -
    have all: "\<forall>q<length k. 0 \<le> k ! q \<and> k ! q < int (ns ! q)"
      using rng le by (auto simp: list_all2_conv_all_nth)
    show ?thesis
      using checked_slice_in_range[OF sh le all, of e']
        checked_slice_in_range[OF sh le all, of out_of_range] le
      by (simp add: at_md_def call_md_def)
  qed
  have full: "at_md ns t i = call_md ns t i
      \<and> call_md ns t i = Returns (Elem (data t ! row_major_offset ns (map nat i)))
      \<and> checked_slice e t i = slice t i"
    if rng: "list_all2 (\<lambda>u n. 0 \<le> u \<and> u < int n) i ns"
  proof -
    have len: "length i = length ns" using rng by (rule list_all2_lengthD)
    have rng': "list_all2 (\<lambda>u n. 0 \<le> u \<and> u < int n) i (take (length i) ns)"
      using rng len by simp
    have nat_rng: "list_all2 (<) (map nat i) ns"
      using rng by (auto simp: list_all2_conv_all_nth)
    have back_i: "map int (map nat i) = i"
      using rng by (intro nth_equalityI) (auto simp: list_all2_conv_all_nth)
    have nz: "static_size ns \<noteq> 0"
      using row_major_offset_less[OF nat_rng] by (simp add: static_size_prod)
    have "slice t (map int (map nat i))
        = Returns (Elem (data t ! row_major_offset ns (map nat i)))"
      using sh nat_rng by (rule slice_in_range)
    then have sl: "slice t i = Returns (Elem (data t ! row_major_offset ns (map nat i)))"
      by (simp only: back_i)
    have cm: "call_md ns t i = Returns (Elem (data t ! row_major_offset ns (map nat i)))"
      using sl nz len by (simp add: call_md_def)
    note p = partial[OF eq_imp_le[OF len] rng', of e]
    show ?thesis using p cm by simp
  qed
  have listform: "at_list ns t j = call_list ns t j
      \<and> call_list ns t j = Returns (data t ! row_major_offset ns j)"
    if rng: "list_all2 (<) j ns"
  proof -
    have "length j = length ns" using rng by (rule list_all2_lengthD)
    then show ?thesis
      using subscript_loop_in_range[OF rng, of 0] at_loop_in_range[OF rng, of 0]
        row_major_offset_less[OF rng] length_data[OF sh]
      by (simp add: at_list_def call_list_def subscript_list_def static_size_prod deref_def)
  qed
  have P: "length k \<le> length ns
      \<and> list_all2 (\<lambda>u n. 0 \<le> u \<and> u < int n) k (take (length k) ns) \<longrightarrow>
        checked_slice e t k = slice t k
      \<and> at_md ns t k = call_md ns t k
      \<and> (\<exists>s. slice t k = Returns s)
      \<and> call_md ns t k = (if static_size ns = 0 then Rejected else slice t k)"
    using partial[of k e] by (intro impI) (elim conjE)
  have F: "list_all2 (\<lambda>u n. 0 \<le> u \<and> u < int n) i ns \<longrightarrow>
        at_md ns t i = call_md ns t i
      \<and> call_md ns t i = Returns (Elem (data t ! row_major_offset ns (map nat i)))
      \<and> checked_slice e t i = slice t i"
    using full by (intro impI)
  have L: "list_all2 (<) j ns \<longrightarrow>
        at_list ns t j = call_list ns t j
      \<and> call_list ns t j = Returns (data t ! row_major_offset ns j)"
    using listform by (intro impI)
  show ?thesis by (intro conjI F P L)
qed

theorem checked_agrees_with_unchecked_witness:
  "has_shape [2, 3] (Arr [Arr [Elem 2, Elem 3, Elem 5], Arr [Elem 7, Elem 11, Elem (13::int)]])
   \<and> list_all2 (\<lambda>u n. 0 \<le> u \<and> u < int n) [1 :: int, 2] [2 :: nat, 3]
   \<and> length [1 :: int] \<le> length [2 :: nat, 3]
   \<and> list_all2 (\<lambda>u n. 0 \<le> u \<and> u < int n) [1 :: int] (take (length [1 :: int]) [2, 3])
   \<and> list_all2 (<) [1, 0] [2 :: nat, 3]
   \<and> at_md [2, 3] (Arr [Arr [Elem 2, Elem 3, Elem 5], Arr [Elem 7, Elem 11, Elem (13::int)]]) [1, 2]
       = Returns (Elem 13)
   \<and> call_md [2, 3] (Arr [Arr [Elem 2, Elem 3, Elem 5], Arr [Elem 7, Elem 11, Elem (13::int)]]) [1, 2]
       = Returns (Elem 13)
   \<and> at_md [2, 3] (Arr [Arr [Elem 2, Elem 3, Elem 5], Arr [Elem 7, Elem 11, Elem (13::int)]]) [1]
       = Returns (Arr [Elem 7, Elem 11, Elem 13])
   \<and> at_list [2, 3] (Arr [Arr [Elem 2, Elem 3, Elem 5], Arr [Elem 7, Elem 11, Elem (13::int)]]) [1, 0]
       = Returns 7"
proof -
  let ?t = "Arr [Arr [Elem 2, Elem 3, Elem 5], Arr [Elem 7, Elem 11, Elem (13::int)]]"
  have h: "has_shape [2, 3] ?t" by simp
  have f: "list_all2 (\<lambda>u n. 0 \<le> u \<and> u < int n) [1 :: int, 2] [2 :: nat, 3]" by simp
  have l: "length [1 :: int] \<le> length [2 :: nat, 3]" by simp
  have b: "list_all2 (\<lambda>u n. 0 \<le> u \<and> u < int n) [1 :: int] (take (length [1 :: int]) [2, 3])"
    by simp
  have r: "list_all2 (<) [1, 0] [2 :: nat, 3]" by simp
  have o: "row_major_offset [2, 3] [1, 0] = 3"
    by (simp add: row_major_offset_Cons row_major_offset_Nil)
  have d: "data ?t ! 3 = 7" by simp
  have c2: "call_md [2, 3] ?t [1, 2] = Returns (Elem 13)" by (simp add: call_md_def)
  have c1: "call_md [2, 3] ?t [1] = Returns (Arr [Elem 7, Elem 11, Elem 13])"
    by (simp add: call_md_def)
  note w = checked_agrees_with_unchecked[OF h, of "[1, 2]" out_of_range "[1]" "[1, 0]"]
  from w have wf: "list_all2 (\<lambda>u n. 0 \<le> u \<and> u < int n) [1 :: int, 2] [2 :: nat, 3] \<longrightarrow>
        at_md [2, 3] ?t [1, 2] = call_md [2, 3] ?t [1, 2]
      \<and> call_md [2, 3] ?t [1, 2]
          = Returns (Elem (data ?t ! row_major_offset [2, 3] (map nat [1, 2])))
      \<and> checked_slice out_of_range ?t [1, 2] = slice ?t [1, 2]"
    by (rule conjunct1)
  from wf f have "at_md [2, 3] ?t [1, 2] = call_md [2, 3] ?t [1, 2]
      \<and> call_md [2, 3] ?t [1, 2]
          = Returns (Elem (data ?t ! row_major_offset [2, 3] (map nat [1, 2])))
      \<and> checked_slice out_of_range ?t [1, 2] = slice ?t [1, 2]"
    by (rule mp)
  then have "at_md [2, 3] ?t [1, 2] = call_md [2, 3] ?t [1, 2]" by (rule conjunct1)
  then have 1: "at_md [2, 3] ?t [1, 2] = Returns (Elem 13)" by (simp only: c2)
  from w have wp: "length [1 :: int] \<le> length [2 :: nat, 3]
      \<and> list_all2 (\<lambda>u n. 0 \<le> u \<and> u < int n) [1 :: int] (take (length [1 :: int]) [2, 3]) \<longrightarrow>
        checked_slice out_of_range ?t [1] = slice ?t [1]
      \<and> at_md [2, 3] ?t [1] = call_md [2, 3] ?t [1]
      \<and> (\<exists>s. slice ?t [1] = Returns s)
      \<and> call_md [2, 3] ?t [1] = (if static_size [2, 3] = 0 then Rejected else slice ?t [1])"
    by (elim conjE)
  from wp conjI[OF l b] have "checked_slice out_of_range ?t [1] = slice ?t [1]
      \<and> at_md [2, 3] ?t [1] = call_md [2, 3] ?t [1]
      \<and> (\<exists>s. slice ?t [1] = Returns s)
      \<and> call_md [2, 3] ?t [1] = (if static_size [2, 3] = 0 then Rejected else slice ?t [1])"
    by (rule mp)
  then have "at_md [2, 3] ?t [1] = call_md [2, 3] ?t [1]" by (elim conjE)
  then have 3: "at_md [2, 3] ?t [1] = Returns (Arr [Elem 7, Elem 11, Elem 13])"
    by (simp only: c1)
  from w have wl: "list_all2 (<) [1, 0] [2 :: nat, 3] \<longrightarrow>
        at_list [2, 3] ?t [1, 0] = call_list [2, 3] ?t [1, 0]
      \<and> call_list [2, 3] ?t [1, 0] = Returns (data ?t ! row_major_offset [2, 3] [1, 0])"
    by (elim conjE)
  from wl r have "at_list [2, 3] ?t [1, 0] = call_list [2, 3] ?t [1, 0]
      \<and> call_list [2, 3] ?t [1, 0] = Returns (data ?t ! row_major_offset [2, 3] [1, 0])"
    by (rule mp)
  then have 2: "at_list [2, 3] ?t [1, 0] = Returns 7"
    unfolding o d by (elim conjE) (rule trans)
  show ?thesis
    by (intro conjI h f l b r 1 c2 3 2)
qed

text \<open>
  C2. The checked list accessor on an array whose first extent is zero, called with one
  index per dimension: every index is out of range there, yet the loop divides
  \<^verbatim>\<open>stride\<close> (which is \<^verbatim>\<open>static_size\<close>, zero) by the extent (zero) before it compares
  the index with the extent, so the call does not reach its \<^verbatim>\<open>throw\<close>.
  (For arrays whose extents are all positive the accessor behaves as documented, see
  \<open>at_list_positive_extents\<close>.)
\<close>

theorem at_list_zero_extent:
  "has_shape [0] (Arr ([] :: int nested list))
   \<and> at_list [0] (Arr ([] :: int nested list)) [0] = Undefined
   \<and> has_shape [0, 2] (Arr ([] :: int nested list))
   \<and> at_list [0, 2] (Arr ([] :: int nested list)) [0, 0] = Undefined"
  by (simp add: at_list_def)

text \<open>
  C9, as stated, fails: the list form of the unchecked \<^verbatim>\<open>operator ()\<close> called with
  more indices than the rank reports nothing. On a rank-2 array a third index makes the
  loop read \<^verbatim>\<open>static_sizes\<close> past its end; on the array without extents the list is
  ignored and the only element is returned.
\<close>

theorem call_list_over_arity_counterexample:
  "call_list [2, 3] (Arr [Arr [Elem 2, Elem 3, Elem 5], Arr [Elem 7, Elem 11, Elem (13::int)]])
      [0, 0, 0] = Undefined
   \<and> call0_list (7 :: int) [5] = Returns 7"
  by (simp add: call_list_def subscript_list_def call0_list_def)

text \<open>
  C9, amended. The list form of the unchecked \<^verbatim>\<open>operator ()\<close> has no arity check and
  never throws: without extents it ignores the list and returns the only element; with
  one in-range index per dimension it returns the addressed element; with more indices
  than the rank its behaviour is undefined. Wrong arity is reported by \<^verbatim>\<open>at\<close> in its
  list form (\<^verbatim>\<open>std::length_error\<close>) and, for the variadic form, by the translator.
\<close>

theorem call_list_unchecked_arity:
  "call0_list x i = Returns x
   \<and> call_list ns t i \<noteq> Throws e
   \<and> call_list ns t i \<noteq> Rejected
   \<and> (length ns < length i \<longrightarrow> call_list ns t i = Undefined)
   \<and> (has_shape ns t \<and> list_all2 (<) i ns \<longrightarrow>
        call_list ns t i = Returns (data t ! row_major_offset ns i))
   \<and> (length ns < length i \<longrightarrow> at_list ns t i = Throws length_error)
   \<and> (length ns < length j \<longrightarrow> call_md ns t j = Rejected)"
proof -
  have long: "call_list ns t i = Undefined" if "length ns < length i"
    using subscript_loop_too_long[OF that] by (simp add: call_list_def subscript_list_def)
  have ok: "call_list ns t i = Returns (data t ! row_major_offset ns i)"
    if sh: "has_shape ns t" and rng: "list_all2 (<) i ns"
    using subscript_loop_in_range[OF rng, of 0] row_major_offset_less[OF rng] length_data[OF sh]
    by (simp add: call_list_def subscript_list_def static_size_prod deref_def)
  show ?thesis
    using subscript_list_never_throws[of ns t i e] long ok
    by (auto simp: call0_list_def call_list_def at_list_def call_md_def)
qed

theorem call_list_unchecked_arity_witness:
  "length [2 :: nat, 3] < length [0 :: nat, 0, 0]
   \<and> length [2 :: nat, 3] < length [0 :: int, 0, 0]
   \<and> call_list [2, 3] (Arr [Arr [Elem 2, Elem 3, Elem 5], Arr [Elem 7, Elem 11, Elem (13::int)]])
        [0, 0, 0] = Undefined
   \<and> at_list [2, 3] (Arr [Arr [Elem 2, Elem 3, Elem 5], Arr [Elem 7, Elem 11, Elem (13::int)]])
        [0, 0, 0] = Throws length_error
   \<and> call_md [2, 3] (Arr [Arr [Elem 2, Elem 3, Elem 5], Arr [Elem 7, Elem 11, Elem (13::int)]])
        [0, 0, 0] = Rejected
   \<and> has_shape [2, 3] (Arr [Arr [Elem 2, Elem 3, Elem 5], Arr [Elem 7, Elem 11, Elem (13::int)]])
   \<and> list_all2 (<) [1, 1] [2 :: nat, 3]
   \<and> call_list [2, 3] (Arr [Arr [Elem 2, Elem 3, Elem 5], Arr [Elem 7, Elem 11, Elem (13::int)]])
        [1, 1] = Returns 11"
proof -
  let ?t = "Arr [Arr [Elem 2, Elem 3, Elem 5], Arr [Elem 7, Elem 11, Elem (13::int)]]"
  have o: "row_major_offset [2, 3] [1, 1] = 4"
    by (simp add: row_major_offset_Cons row_major_offset_Nil)
  have d: "data ?t ! 4 = 11" by simp
  have h: "has_shape [2, 3] ?t" by simp
  have r: "list_all2 (<) [1, 1] [2 :: nat, 3]" by simp
  have l1: "length [2 :: nat, 3] < length [0 :: nat, 0, 0]" by simp
  have l2: "length [2 :: nat, 3] < length [0 :: int, 0, 0]" by simp
  note a = call_list_unchecked_arity[of 0 "[0, 0, 0]" "[2, 3]" ?t out_of_range "[0, 0, 0]"]
  note b = call_list_unchecked_arity[of 0 "[1, 1]" "[2, 3]" ?t out_of_range "[]"]
  have 1: "call_list [2, 3] ?t [0, 0, 0] = Undefined" using a l1 by blast
  have 2: "at_list [2, 3] ?t [0, 0, 0] = Throws length_error" using a l1 by blast
  have 3: "call_md [2, 3] ?t [0, 0, 0] = Rejected" using a l2 by blast
  have "call_list [2, 3] ?t [1, 1] = Returns (data ?t ! row_major_offset [2, 3] [1, 1])"
    using b h r by blast
  then have 4: "call_list [2, 3] ?t [1, 1] = Returns 11" unfolding o d .
  show ?thesis using l1 l2 1 2 3 h r 4 by blast
qed


section \<open>Properties of the adapter\<close>

lemma prod_list_pos:
  fixes xs :: "nat list"
  shows "0 \<notin> set xs \<Longrightarrow> 0 < prod_list xs"
  by (induction xs) auto

lemma zero_notin_map_unat:
  fixes e :: "'a::len word list"
  shows "0 \<in> unat ` set e \<longleftrightarrow> 0 \<in> set e"
  by (auto simp: unat_eq_0 image_iff)

lemma product_overflows_iff:
  fixes limit :: "'a::len word"
  assumes "limit \<noteq> 0" and "0 \<notin> set e"
  shows "product_overflows limit e
     \<longleftrightarrow> unat (- 1 :: 'a word) < unat limit * prod_list (map unat e)"
  using assms
proof (induction e arbitrary: limit)
  case Nil
  have "unat limit \<le> unat (- 1 :: 'a word)"
    by (simp add: word_le_nat_alt[symmetric])
  then show ?case by simp
next
  case (Cons x xs)
  have lpos: "0 < unat limit" using Cons.prems(1) by (simp add: unat_gt_0)
  have xpos: "0 < unat x" using Cons.prems(2) by (auto simp: unat_gt_0)
  have rest: "0 < prod_list (map unat xs)"
    using Cons.prems(2) by (intro prod_list_pos) (simp add: zero_notin_map_unat)
  have cmp: "(- 1) div limit < x \<longleftrightarrow> unat (- 1 :: 'a word) < unat x * unat limit"
    using lpos by (simp add: word_less_nat_alt unat_div div_less_iff_less_mult)
  show ?case
  proof (cases "(- 1) div limit < x")
    case True
    then have "unat (- 1 :: 'a word) < unat x * unat limit" using cmp by simp
    also have "\<dots> \<le> unat x * unat limit * prod_list (map unat xs)"
      using rest by simp
    finally show ?thesis using True by (simp add: mult_ac)
  next
    case False
    then have le: "unat limit * unat x \<le> unat (- 1 :: 'a word)"
      using cmp by (simp add: mult_ac not_less)
    have "unat (- 1 :: 'a word) < 2 ^ LENGTH('a)" by (rule unsigned_less)
    then have "unat limit * unat x < 2 ^ LENGTH('a)" using le by linarith
    then have eq: "unat (limit * x) = unat limit * unat x"
      by (simp add: unat_mult_lem)
    then have "limit * x \<noteq> 0" using lpos xpos by (metis unat_gt_0 nat_0_less_mult_iff)
    from Cons.IH[OF this] Cons.prems(2) False eq
    show ?thesis by (simp add: mult_ac)
  qed
qed

lemma extents_i_recalculate_strides [simp]:
  "extents_i (recalculate_strides Rank s) = extents_i s"
  by (simp add: recalculate_strides_def)

lemma priorities_i_recalculate_strides [simp]:
  "priorities_i (recalculate_strides Rank s) = priorities_i s"
  by (simp add: recalculate_strides_def)

lemma set_extents_cases:
  fixes e :: "'a::len word list"
  shows "set_extents Rank e s =
     (if 0 \<in> set e then (Some out_of_range, s)
      else if unat (- 1 :: 'a word) < prod_list (map unat e) then (Some overflow_error, s)
      else (None, recalculate_strides Rank (s\<lparr>extents_i := e @ drop (length e) (extents_i s)\<rparr>)))"
  using product_overflows_iff[of 1 e]
  by (simp add: set_extents_def update_extents_def)

text \<open>
  C6. For a list \<open>e\<close> of \<^verbatim>\<open>Rank\<close> extents, \<^verbatim>\<open>extents(e)\<close> throws
  \<^verbatim>\<open>std::out_of_range\<close> exactly when some entry is zero; otherwise it throws
  \<^verbatim>\<open>std::overflow_error\<close> exactly when the product of the entries, taken in the natural
  numbers, exceeds the largest \<^verbatim>\<open>size_type\<close> value; otherwise it returns and
  \<^verbatim>\<open>extents()\<close> is \<open>e\<close>. A call that throws leaves the object as it was.
\<close>

theorem set_extents_validation:
  fixes e :: "'a::len word list"
  shows "length e = unat Rank \<Longrightarrow>
       (fst (set_extents Rank e s) = Some out_of_range \<longleftrightarrow> 0 \<in> set e)
     \<and> (fst (set_extents Rank e s) = Some overflow_error
           \<longleftrightarrow> 0 \<notin> set e \<and> unat (- 1 :: 'a word) < prod_list (map unat e))
     \<and> (fst (set_extents Rank e s) = None
           \<longleftrightarrow> 0 \<notin> set e \<and> prod_list (map unat e) \<le> unat (- 1 :: 'a word))
     \<and> (fst (set_extents Rank e s) = None \<longrightarrow> extents Rank (snd (set_extents Rank e s)) = e)
     \<and> (fst (set_extents Rank e s) \<noteq> None \<longrightarrow> snd (set_extents Rank e s) = s)"
  by (auto simp: set_extents_cases extents_def)

lemma is_permutation_distinct:
  "distinct ys \<Longrightarrow> is_permutation xs ys \<longleftrightarrow> distinct xs \<and> set xs = set ys"
proof (induction xs arbitrary: ys)
  case Nil
  then show ?case by auto
next
  case (Cons x xs)
  have "distinct (remove1 x ys)" using Cons.prems by simp
  from Cons.IH[OF this] Cons.prems show ?case
    by (auto simp: set_remove1_eq)
qed

lemma distinct_row_major_order: "distinct (row_major_order (Rank :: 'a::len word))"
proof -
  have b: "unat Rank < 2 ^ LENGTH('a)" by (rule unsigned_less)
  have "inj_on (of_nat :: nat \<Rightarrow> 'a word) {0..<unat Rank}"
  proof (rule inj_onI)
    fix x y assume x: "x \<in> {0..<unat Rank}" and y: "y \<in> {0..<unat Rank}"
      and eq: "(of_nat x :: 'a word) = of_nat y"
    have "x < unat Rank" "y < unat Rank" using x y by simp_all
    then have "x < 2 ^ LENGTH('a)" "y < 2 ^ LENGTH('a)"
      using b by linarith+
    then have ux: "unat (of_nat x :: 'a word) = x" and uy: "unat (of_nat y :: 'a word) = y"
      by (simp_all add: unat_of_nat)
    have "x = unat (of_nat x :: 'a word)" by (simp only: ux)
    also have "\<dots> = unat (of_nat y :: 'a word)" by (simp only: eq)
    also have "\<dots> = y" by (simp only: uy)
    finally show "x = y" .
  qed
  then show ?thesis by (simp add: row_major_order_def distinct_map)
qed

lemma set_row_major_order: "set (row_major_order Rank) = {x. x < Rank}"
proof -
  have "x \<in> of_nat ` {0..<unat Rank} \<longleftrightarrow> x < Rank" for x :: "'a word"
  proof
    assume "x \<in> of_nat ` {0..<unat Rank}"
    then obtain n where "n < unat Rank" "x = of_nat n" by auto
    then show "x < Rank"
      by (metis le_unat_uoi less_imp_le word_less_nat_alt)
  next
    assume "x < Rank"
    then have "unat x < unat Rank" by (simp add: word_less_nat_alt)
    moreover have "x = of_nat (unat x)" by simp
    ultimately show "x \<in> of_nat ` {0..<unat Rank}"
      by (metis atLeastLessThan_iff imageI zero_le)
  qed
  then show ?thesis by (auto simp: row_major_order_def)
qed

lemma set_priorities_cases:
  "set_priorities Rank p s =
     (if \<exists>x\<in>set p. Rank \<le> x then (Some out_of_range, s)
      else if \<not> (distinct p \<and> set p = {x. x < Rank}) then (Some invalid_argument, s)
      else (None, recalculate_strides Rank (s\<lparr>priorities_i := p @ drop (length p) (priorities_i s)\<rparr>)))"
  by (simp add: set_priorities_def update_priorities_def list_ex_iff
      is_permutation_distinct[OF distinct_row_major_order] set_row_major_order)

text \<open>
  C7. For a list \<open>p\<close> of \<^verbatim>\<open>Rank\<close> priorities, \<^verbatim>\<open>priorities(p)\<close> throws
  \<^verbatim>\<open>std::out_of_range\<close> if some entry is not below \<^verbatim>\<open>Rank\<close>; it throws
  \<^verbatim>\<open>std::invalid_argument\<close> if all entries are below \<^verbatim>\<open>Rank\<close> but one is repeated or
  a dimension is missing; otherwise it returns and \<^verbatim>\<open>priorities()\<close> is \<open>p\<close>. A call that
  throws leaves the object as it was.
\<close>

theorem set_priorities_validation:
  "length p = unat Rank \<Longrightarrow>
       (list_ex (\<lambda>x. unat Rank \<le> unat x) p \<longrightarrow> fst (set_priorities Rank p s) = Some out_of_range)
     \<and> (\<not> list_ex (\<lambda>x. unat Rank \<le> unat x) p
          \<and> (\<not> distinct p \<or> list_ex (\<lambda>v. of_nat v \<notin> set p) [0..<unat Rank])
          \<longrightarrow> fst (set_priorities Rank p s) = Some invalid_argument)
     \<and> (\<not> list_ex (\<lambda>x. unat Rank \<le> unat x) p
          \<and> distinct p \<and> \<not> list_ex (\<lambda>v. of_nat v \<notin> set p) [0..<unat Rank]
          \<longrightarrow> fst (set_priorities Rank p s) = None
            \<and> priorities Rank (snd (set_priorities Rank p s)) = p)
     \<and> (fst (set_priorities Rank p s) \<noteq> None \<longrightarrow> snd (set_priorities Rank p s) = s)"
proof -
  assume len: "length p = unat Rank"
  have "list_ex (\<lambda>v. of_nat v \<notin> set p) [0..<unat Rank]
      \<longleftrightarrow> \<not> set (row_major_order Rank) \<subseteq> set p"
    by (auto simp: list_ex_iff row_major_order_def)
  then have omit: "list_ex (\<lambda>v. of_nat v \<notin> set p) [0..<unat Rank]
      \<longleftrightarrow> \<not> {x. x < Rank} \<subseteq> set p"
    by (simp only: set_row_major_order)
  have rng: "list_ex (\<lambda>x. unat Rank \<le> unat x) p \<longleftrightarrow> (\<exists>x\<in>set p. Rank \<le> x)"
    by (simp add: list_ex_iff word_le_nat_alt)
  have sub: "set p \<subseteq> {x. x < Rank}" if "\<not> (\<exists>x\<in>set p. Rank \<le> x)"
    using that by (auto simp: not_le)
  show ?thesis
    unfolding omit rng using sub len
    by (auto simp: set_priorities_cases priorities_def)
qed
lemma unat_image_less: "unat ` {x :: 'a::len word. x < Rank} = {0..<unat Rank}"
proof (rule set_eqI)
  fix k
  show "k \<in> unat ` {x :: 'a word. x < Rank} \<longleftrightarrow> k \<in> {0..<unat Rank}"
  proof
    assume "k \<in> unat ` {x :: 'a word. x < Rank}"
    then show "k \<in> {0..<unat Rank}" by (auto simp: word_less_nat_alt)
  next
    assume k: "k \<in> {0..<unat Rank}"
    have b: "unat Rank < 2 ^ LENGTH('a)" by (rule unsigned_less)
    have "k < unat Rank" using k by simp
    from this b have "k < 2 ^ LENGTH('a)" by (rule less_trans)
    then have u: "unat (of_nat k :: 'a word) = k" by (simp add: unat_of_nat)
    then have "(of_nat k :: 'a word) < Rank" using k by (simp add: word_less_nat_alt)
    then show "k \<in> unat ` {x :: 'a word. x < Rank}" using u by (metis imageI mem_Collect_eq)
  qed
qed

lemma inj_on_unat: "inj_on (unat :: 'a::len word \<Rightarrow> nat) A"
  by (rule inj_onI) (simp add: word_unat_eq_iff)

lemma prod_list_permuted:
  fixes p :: "'a::len word list" and f :: "nat \<Rightarrow> nat"
  assumes "distinct p" and "set p = {x. x < Rank}"
  shows "prod_list (map (\<lambda>w. f (unat w)) p) = prod_list (map f [0..<unat Rank])"
proof -
  have "prod_list (map (\<lambda>w. f (unat w)) p) = prod (\<lambda>w. f (unat w)) (set p)"
    using assms(1) by (simp add: prod.distinct_set_conv_list)
  also have "\<dots> = prod f (unat ` set p)"
    by (simp add: prod.reindex[OF inj_on_unat] o_def)
  also have "\<dots> = prod f {0..<unat Rank}"
    by (simp only: assms(2) unat_image_less)
  also have "\<dots> = prod_list (map f [0..<unat Rank])"
    by (simp add: prod.distinct_set_conv_list[symmetric])
  finally show ?thesis .
qed

lemma foldl_mult_unat:
  fixes a :: "'a::len word"
  assumes "0 \<notin> set xs" and "unat a * prod_list (map unat xs) < 2 ^ LENGTH('a)"
  shows "unat (foldl (*) a xs) = unat a * prod_list (map unat xs)"
  using assms
proof (induction xs arbitrary: a)
  case Nil
  then show ?case by simp
next
  case (Cons x xs)
  have pos: "0 < prod_list (map unat xs)"
    using Cons.prems(1) by (intro prod_list_pos) (simp add: zero_notin_map_unat)
  have "unat a * unat x \<le> unat a * unat x * prod_list (map unat xs)"
    using pos by simp
  also have "\<dots> < 2 ^ LENGTH('a)" using Cons.prems(2) by (simp add: mult_ac)
  finally have eq: "unat (a * x) = unat a * unat x" by (simp add: unat_mult_lem)
  have "unat (foldl (*) (a * x) xs) = unat (a * x) * prod_list (map unat xs)"
    using Cons.prems by (intro Cons.IH) (simp_all add: eq mult_ac)
  then show ?case by (simp add: eq mult_ac)
qed

lemma strides_loop_spec:
  fixes ext :: "'a::len word list"
  assumes "distinct (pre @ ps)"
    and "\<forall>w\<in>set ps. unat w < length strides \<and> ext ! unat w \<noteq> 0"
    and "unat product = prod_list (map (\<lambda>w. unat (ext ! unat w)) ps)"
  shows "length (strides_loop ext product ps strides) = length strides
     \<and> (\<forall>w\<in>set ps. unat (strides_loop ext product ps strides ! unat w)
          = prod_list (map (\<lambda>q. unat (ext ! unat q)) (tl (dropWhile (\<lambda>q. q \<noteq> w) (pre @ ps)))))
     \<and> (\<forall>k. k \<notin> unat ` set ps \<longrightarrow> strides_loop ext product ps strides ! k = strides ! k)"
  using assms
proof (induction ps arbitrary: pre product strides)
  case Nil
  then show ?case by simp
next
  case (Cons w rest)
  let ?E = "\<lambda>q. unat (ext ! unat q)"
  let ?product' = "product div ext ! unat w"
  let ?strides' = "strides[unat w := ?product']"
  let ?R = "strides_loop ext ?product' rest ?strides'"
  have Epos: "0 < ?E w" using Cons.prems(2) by (simp add: unat_gt_0)
  have up: "unat ?product' = prod_list (map ?E rest)"
    using Cons.prems(3) Epos by (simp add: unat_div)
  have d': "distinct ((pre @ [w]) @ rest)" using Cons.prems(1) by simp
  have b': "\<forall>v\<in>set rest. unat v < length ?strides' \<and> ext ! unat v \<noteq> 0"
    using Cons.prems(2) by simp
  note IH = Cons.IH[OF d' b' up]
  have wnot: "unat w \<notin> unat ` set rest"
    using Cons.prems(1) by (auto simp: image_iff word_unat_eq_iff[symmetric])
  have "?R ! unat w = ?strides' ! unat w" using IH wnot by blast
  also have "\<dots> = ?product'" using Cons.prems(2) by simp
  finally have Rw: "unat (?R ! unat w) = prod_list (map ?E rest)" using up by simp
  have "dropWhile (\<lambda>q. q \<noteq> w) (pre @ w # rest) = dropWhile (\<lambda>q. q \<noteq> w) (w # rest)"
    using Cons.prems(1) by (intro dropWhile_append2) auto
  then have tlw: "tl (dropWhile (\<lambda>q. q \<noteq> w) (pre @ w # rest)) = rest"
    by simp
  have 1: "length ?R = length strides" using IH by simp
  have 2: "\<forall>v\<in>set (w # rest). unat (?R ! unat v)
      = prod_list (map ?E (tl (dropWhile (\<lambda>q. q \<noteq> v) (pre @ w # rest))))"
    using IH Rw tlw by auto
  have 3: "\<forall>k. k \<notin> unat ` set (w # rest) \<longrightarrow> ?R ! k = strides ! k"
    using IH by auto
  show ?case using 1 2 3 by (simp add: Let_def)
qed
lemma is_permutation_row_major:
  "is_permutation p (row_major_order Rank) \<longleftrightarrow> distinct p \<and> set p = {x. x < Rank}"
  by (simp add: is_permutation_distinct[OF distinct_row_major_order] set_row_major_order)

lemma length_row_major_order [simp]: "length (row_major_order Rank) = unat Rank"
  by (simp add: row_major_order_def)

lemma is_permutation_length:
  "is_permutation xs ys \<Longrightarrow> length xs = length ys"
proof (induction xs arbitrary: ys)
  case Nil
  then show ?case by simp
next
  case (Cons x xs)
  then have "length xs = length (remove1 x ys)" and "x \<in> set ys" by auto
  then show ?case by (simp add: length_remove1) (metis length_pos_if_in_set Suc_pred)
qed

lemma less_major_map_unat:
  "less_major (map unat p) (unat w) = map unat (tl (dropWhile (\<lambda>q. q \<noteq> w) p))"
proof -
  have "(\<lambda>q. q \<noteq> unat w) \<circ> unat = (\<lambda>q. q \<noteq> w)"
    by (auto simp: fun_eq_iff word_unat_eq_iff)
  then show ?thesis
    by (simp add: less_major_def dropWhile_map map_tl)
qed

lemma set_tl_dropWhile: "set (tl (dropWhile P xs)) \<subseteq> set xs"
proof -
  have "set (tl ys) \<subseteq> set ys" for ys :: "'a list"
    by (cases ys) auto
  then have "set (tl (dropWhile P xs)) \<subseteq> set (dropWhile P xs)" .
  also have "\<dots> \<subseteq> set xs" by (auto dest: set_dropWhileD)
  finally show ?thesis .
qed

lemma map_nth_unat: "map (\<lambda>k. unat (xs ! k)) [0..<length xs] = map unat xs"
  by (rule nth_equalityI) simp_all

lemma stats_length_pos: "Rank \<noteq> 0 \<Longrightarrow> stats_length Rank = unat Rank \<and> 0 < unat Rank"
  by (simp add: stats_length_def unat_gt_0)

lemma recalculate_strides_agree:
  fixes s :: "('a::len, 'z) indexed_base_scheme"
  assumes ok: "shape_ok Rank s"
  shows "strides_agree Rank (recalculate_strides Rank s)
     \<and> length (strides_i (recalculate_strides Rank s)) = length (strides_i s)
     \<and> (Rank = 0 \<longrightarrow> strides_i (recalculate_strides Rank s) = strides_i s)"
proof (cases "Rank = 0")
  case True
  then show ?thesis by (simp add: strides_agree_def recalculate_strides_def)
next
  case False
  let ?r = "unat Rank"
  let ?ext = "extents_i s"
  let ?p = "priorities_i s"
  let ?E = "\<lambda>q. unat (?ext ! unat q)"
  from False have r: "stats_length Rank = ?r" "0 < ?r" using stats_length_pos by auto
  have lens: "length ?ext = ?r" "length ?p = ?r" "length (strides_i s) = ?r"
    using ok r by (simp_all add: shape_ok_def)
  have nz: "0 \<notin> set ?ext" and fits: "prod_list (map unat ?ext) \<le> unat (- 1 :: 'a word)"
    using ok by (simp_all add: shape_ok_def)
  have pp: "priorities Rank s = ?p" "extents Rank s = ?ext"
    using lens by (simp_all add: priorities_def extents_def)
  have perm: "distinct ?p" "set ?p = {x. x < Rank}"
    using ok pp by (simp_all add: shape_ok_def is_permutation_row_major)
  have inb: "unat w < ?r" if "w \<in> set ?p" for w
    using that perm(2) by (simp add: word_less_nat_alt)
  have lt: "prod_list (map unat ?ext) < 2 ^ LENGTH('a)"
    using fits unsigned_less[of "- 1 :: 'a word", where 'a = nat] by (rule le_less_trans)
  have "unat (foldl (*) (1 :: 'a word) ?ext) = unat (1 :: 'a word) * prod_list (map unat ?ext)"
    using nz lt by (intro foldl_mult_unat) simp_all
  also have "\<dots> = prod_list (map (\<lambda>k. unat (?ext ! k)) [0..<?r])"
    using map_nth_unat[of ?ext] lens(1) by simp
  also have "\<dots> = prod_list (map ?E ?p)"
    by (rule prod_list_permuted[OF perm, symmetric])
  finally have prod0: "unat (foldl (*) (1 :: 'a word) ?ext) = prod_list (map ?E ?p)" .
  have bnd: "\<forall>w\<in>set ?p. unat w < length (strides_i s) \<and> ?ext ! unat w \<noteq> 0"
  proof
    fix w assume w: "w \<in> set ?p"
    then have "unat w < length ?ext" using inb lens by simp
    then have "?ext ! unat w \<in> set ?ext" by simp
    then show "unat w < length (strides_i s) \<and> ?ext ! unat w \<noteq> 0"
      using nz inb[OF w] lens by metis
  qed
  let ?R = "strides_loop ?ext (foldl (*) 1 ?ext) ?p (strides_i s)"
  have dist: "distinct ([] @ ?p)" using perm(1) by simp
  note L = strides_loop_spec[OF dist bnd prod0]
  have R: "strides_i (recalculate_strides Rank s) = ?R"
    using lens by (simp add: recalculate_strides_def)
  have agree: "unat (?R ! d) = spec_stride (map unat ?ext) (map unat ?p) d" if d: "d < ?r" for d
  proof -
    have "d \<in> unat ` {x. x < Rank}" using d by (simp add: unat_image_less)
    then obtain w where w: "w \<in> set ?p" "unat w = d" using perm(2) by auto
    let ?post = "tl (dropWhile (\<lambda>q. q \<noteq> w) ?p)"
    have Rw: "unat (?R ! unat w) = prod_list (map ?E ?post)" using L w(1) by simp
    have inl: "\<And>q. q \<in> set ?post \<Longrightarrow> unat q < length ?ext"
      using set_tl_dropWhile[of "\<lambda>q. q \<noteq> w" ?p] inb lens by auto
    have meq: "map (\<lambda>q. map unat ?ext ! q) (map unat ?post) = map ?E ?post"
      unfolding map_map by (rule map_cong[OF refl]) (simp add: inl)
    have lm: "less_major (map unat ?p) d = map unat ?post"
      using less_major_map_unat[of ?p w] w(2) by simp
    have "spec_stride (map unat ?ext) (map unat ?p) d
        = prod_list (map (\<lambda>q. map unat ?ext ! q) (map unat ?post))"
      by (simp only: spec_stride_def lm)
    also have "\<dots> = prod_list (map ?E ?post)" by (simp only: meq)
    also have "\<dots> = unat (?R ! d)" using Rw w(2) by simp
    finally show ?thesis by simp
  qed
  have "strides_agree Rank (recalculate_strides Rank s)"
    using agree pp R by (simp add: strides_agree_def list_all_iff extents_def priorities_def)
  moreover have "length ?R = length (strides_i s)" using L by simp
  ultimately show ?thesis using False R by simp
qed
lemma update_extents_cases:
  fixes e :: "'a::len word list"
  shows "update_extents e s =
     (if 0 \<in> set e then (Some out_of_range, s)
      else if unat (- 1 :: 'a word) < prod_list (map unat e) then (Some overflow_error, s)
      else (None, s\<lparr>extents_i := e @ drop (length e) (extents_i s)\<rparr>))"
  using product_overflows_iff[of 1 e] by (simp add: update_extents_def)

lemma update_priorities_cases:
  "update_priorities Rank p s =
     (if \<exists>x\<in>set p. Rank \<le> x then (Some out_of_range, s)
      else if \<not> (distinct p \<and> set p = {x. x < Rank}) then (Some invalid_argument, s)
      else (None, s\<lparr>priorities_i := p @ drop (length p) (priorities_i s)\<rparr>))"
  by (simp add: update_priorities_def list_ex_iff is_permutation_row_major)

lemma priorities_extents_update [simp]:
  "priorities Rank (s\<lparr>extents_i := x\<rparr>) = priorities Rank s"
  by (simp add: priorities_def)

lemma extents_priorities_update [simp]:
  "extents Rank (s\<lparr>priorities_i := x\<rparr>) = extents Rank s"
  by (simp add: extents_def)

lemma priorities_recalculate_strides [simp]:
  "priorities Rank (recalculate_strides Rank' s) = priorities Rank s"
  by (simp add: priorities_def)

lemma extents_recalculate_strides [simp]:
  "extents Rank (recalculate_strides Rank' s) = extents Rank s"
  by (simp add: extents_def)

lemma priorities_priorities_update:
  "length p = unat Rank
   \<Longrightarrow> priorities Rank (s\<lparr>priorities_i := p @ drop (length p) (priorities_i s)\<rparr>) = p"
  by (simp add: priorities_def)

lemma extents_extents_update:
  "length e = unat Rank
   \<Longrightarrow> extents Rank (s\<lparr>extents_i := e @ drop (length e) (extents_i s)\<rparr>) = e"
  by (simp add: extents_def)

lemma shape_ok_recalculate_strides:
  "shape_ok Rank s \<Longrightarrow> shape_ok Rank (recalculate_strides Rank s)"
  using recalculate_strides_agree[of Rank s]
  by (auto simp: shape_ok_def split: if_splits)

lemma stats_ok_recalculate_strides:
  "shape_ok Rank s \<Longrightarrow> stats_ok Rank (recalculate_strides Rank s)"
  using recalculate_strides_agree[of Rank s] shape_ok_recalculate_strides[of Rank s]
  by (simp add: stats_ok_def)

lemma shape_ok_extents_update:
  fixes e :: "'a::len word list"
  assumes "shape_ok Rank s" and "length e = unat Rank" and "0 \<notin> set e"
    and "prod_list (map unat e) \<le> unat (- 1 :: 'a word)"
  shows "shape_ok Rank (s\<lparr>extents_i := e @ drop (length e) (extents_i s)\<rparr>)"
proof (cases "Rank = 0")
  case True
  then have "e = []" using assms(2) by simp
  then show ?thesis using assms(1) by simp
next
  case False
  then have sl: "stats_length Rank = unat Rank" using stats_length_pos by auto
  then have "e @ drop (length e) (extents_i s) = e"
    using assms(1,2) by (simp add: shape_ok_def)
  then show ?thesis using assms False sl
    by (simp add: shape_ok_def)
qed

lemma shape_ok_priorities_update:
  assumes "shape_ok Rank s" and "length p = unat Rank"
    and "is_permutation p (row_major_order Rank)"
  shows "shape_ok Rank (s\<lparr>priorities_i := p @ drop (length p) (priorities_i s)\<rparr>)"
proof (cases "Rank = 0")
  case True
  then have "p = []" using assms(2) by simp
  then show ?thesis using assms(1) by simp
next
  case False
  then have sl: "stats_length Rank = unat Rank" using stats_length_pos by auto
  then have "p @ drop (length p) (priorities_i s) = p"
    using assms(1,2) by (simp add: shape_ok_def)
  then show ?thesis using assms False sl priorities_priorities_update[OF assms(2), of s]
    by (simp add: shape_ok_def)
qed

lemma stats_ok_set_extents:
  fixes e :: "'a::len word list"
  assumes "stats_ok Rank s" and "length e = unat Rank"
  shows "stats_ok Rank (snd (set_extents Rank e s))"
proof (cases "0 \<in> set e \<or> unat (- 1 :: 'a word) < prod_list (map unat e)")
  case True
  then show ?thesis using assms(1) by (auto simp: set_extents_cases)
next
  case False
  have "shape_ok Rank s" using assms(1) by (simp add: stats_ok_def)
  then have "shape_ok Rank (s\<lparr>extents_i := e @ drop (length e) (extents_i s)\<rparr>)"
    using False assms(2) by (intro shape_ok_extents_update) (simp_all add: not_less)
  then have "stats_ok Rank
      (recalculate_strides Rank (s\<lparr>extents_i := e @ drop (length e) (extents_i s)\<rparr>))"
    by (rule stats_ok_recalculate_strides)
  then show ?thesis using False by (simp add: set_extents_cases)
qed

lemma stats_ok_set_priorities:
  assumes "stats_ok Rank s" and "length p = unat Rank"
  shows "stats_ok Rank (snd (set_priorities Rank p s))"
proof (cases "(\<exists>x\<in>set p. Rank \<le> x) \<or> \<not> (distinct p \<and> set p = {x. x < Rank})")
  case True
  then show ?thesis using assms(1) by (auto simp: set_priorities_cases)
next
  case False
  then have perm: "is_permutation p (row_major_order Rank)"
    by (simp add: is_permutation_row_major)
  have "shape_ok Rank s" using assms(1) by (simp add: stats_ok_def)
  then have "shape_ok Rank (s\<lparr>priorities_i := p @ drop (length p) (priorities_i s)\<rparr>)"
    using assms(2) perm by (rule shape_ok_priorities_update)
  then have "stats_ok Rank
      (recalculate_strides Rank (s\<lparr>priorities_i := p @ drop (length p) (priorities_i s)\<rparr>))"
    by (rule stats_ok_recalculate_strides)
  then show ?thesis using False by (simp add: set_priorities_cases)
qed

lemma saved_extents_restore:
  fixes e :: "'a::len word list"
  assumes "shape_ok Rank s" and "length e = unat Rank"
  shows "update_extents (extents Rank s) (s\<lparr>extents_i := e @ drop (length e) (extents_i s)\<rparr>)
     = (None, s)"
proof (cases "Rank = 0")
  case True
  then have "e = []" "extents Rank s = []" using assms(2) by (simp_all add: extents_def)
  then show ?thesis by (simp add: update_extents_def)
next
  case False
  then have "stats_length Rank = unat Rank" using stats_length_pos by auto
  then have len: "length (extents_i s) = unat Rank"
    using assms(1) by (simp add: shape_ok_def)
  then have sv: "extents Rank s = extents_i s" by (simp add: extents_def)
  have "0 \<notin> set (extents_i s)"
    and "\<not> unat (- 1 :: 'a word) < prod_list (map unat (extents_i s))"
    using assms(1) by (simp_all add: shape_ok_def not_less)
  then show ?thesis
    using len assms(2) by (simp add: update_extents_cases sv)
qed

lemma extents_and_priorities_cases:
  fixes e :: "'a::len word list"
  assumes "shape_ok Rank s" and "length e = unat Rank"
  shows "extents_and_priorities Rank e p s =
     (if 0 \<in> set e then (Some out_of_range, s)
      else if unat (- 1 :: 'a word) < prod_list (map unat e) then (Some overflow_error, s)
      else if \<exists>x\<in>set p. Rank \<le> x then (Some out_of_range, s)
      else if \<not> (distinct p \<and> set p = {x. x < Rank}) then (Some invalid_argument, s)
      else (None, recalculate_strides Rank
              (s\<lparr>extents_i := e @ drop (length e) (extents_i s),
                 priorities_i := p @ drop (length p) (priorities_i s)\<rparr>)))"
  using saved_extents_restore[OF assms]
  by (simp add: extents_and_priorities_def Let_def update_extents_cases[of e]
      update_priorities_cases extents_def)

lemma stats_ok_extents_and_priorities:
  fixes e :: "'a::len word list"
  assumes "stats_ok Rank s" and "length e = unat Rank" and "length p = unat Rank"
  shows "stats_ok Rank (snd (extents_and_priorities Rank e p s))"
proof -
  have sh: "shape_ok Rank s" using assms(1) by (simp add: stats_ok_def)
  note cases = extents_and_priorities_cases[OF sh assms(2), of p]
  show ?thesis
  proof (cases "0 \<in> set e \<or> unat (- 1 :: 'a word) < prod_list (map unat e)
      \<or> (\<exists>x\<in>set p. Rank \<le> x) \<or> \<not> (distinct p \<and> set p = {x. x < Rank})")
    case True
    then show ?thesis using assms(1) by (auto simp: cases)
  next
    case False
    then have perm: "is_permutation p (row_major_order Rank)"
      by (simp add: is_permutation_row_major)
    have "shape_ok Rank (s\<lparr>extents_i := e @ drop (length e) (extents_i s)\<rparr>)"
      using sh False assms(2) by (intro shape_ok_extents_update) (simp_all add: not_less)
    then have "shape_ok Rank ((s\<lparr>extents_i := e @ drop (length e) (extents_i s)\<rparr>)
        \<lparr>priorities_i := p @ drop (length p)
           (priorities_i (s\<lparr>extents_i := e @ drop (length e) (extents_i s)\<rparr>))\<rparr>)"
      using assms(3) perm by (rule shape_ok_priorities_update)
    then have "shape_ok Rank (s\<lparr>extents_i := e @ drop (length e) (extents_i s),
        priorities_i := p @ drop (length p) (priorities_i s)\<rparr>)"
      by simp
    then have "stats_ok Rank (recalculate_strides Rank
        (s\<lparr>extents_i := e @ drop (length e) (extents_i s),
           priorities_i := p @ drop (length p) (priorities_i s)\<rparr>))"
      by (rule stats_ok_recalculate_strides)
    then show ?thesis using False by (simp add: cases)
  qed
qed
lemma c_recalculate_strides [simp]: "c (recalculate_strides Rank m) = c m"
  by (simp add: recalculate_strides_def)

lemma stats_ok_writes [simp]: "stats_ok Rank (m\<lparr>c := cs\<rparr>) = stats_ok Rank m"
  by (simp add: stats_ok_def shape_ok_def strides_agree_def extents_def priorities_def)

lemma is_permutation_refl: "distinct xs \<Longrightarrow> is_permutation xs xs"
  by (simp add: is_permutation_distinct)

lemma prod_list_first_extent:
  fixes x :: "'a::len word"
  shows "prod_list (map unat ((replicate r 1)[0 := x])) = (if r = 0 then 1 else unat x)"
  by (cases r) simp_all

lemma one_le_max: "Suc 0 \<le> unat (- 1 :: 'a::len word)"
  using word_le_nat_alt[of "1 :: 'a word" "- 1"] by simp

lemma shape_ok_init: "shape_ok (Rank :: 'a::len word) (indexed_base_init Rank cc)"
proof -
  have "take (unat Rank) (map of_nat [0..<stats_length Rank]) = row_major_order Rank"
    by (simp add: row_major_order_def stats_length_def take_map)
  then have "is_permutation (priorities Rank (indexed_base_init Rank cc)) (row_major_order Rank)"
    by (simp add: priorities_def indexed_base_init_def is_permutation_refl
        distinct_row_major_order)
  moreover have "Rank = 0 \<Longrightarrow> stats_length Rank = 1" by (simp add: stats_length_def)
  moreover note one_le_max[where 'a = 'a]
  ultimately show ?thesis
    by (auto simp: shape_ok_def indexed_base_init_def)
qed

lemma construct_ok:
  fixes Rank :: "'a::len word"
  assumes "length cc \<le> unat (- 1 :: 'a word)"
  shows "fst (construct Rank cc) = None \<and> stats_ok Rank (snd (construct Rank cc))
     \<and> c (snd (construct Rank cc)) = cc"
proof -
  let ?m = "indexed_base_init Rank cc :: ('a, 'b) multiarray"
  let ?n = "if Rank \<noteq> 0 \<and> cc \<noteq> [] then of_nat (length cc) else (1 :: 'a word)"
  let ?e = "(replicate (unat Rank) 1)[0 := ?n]"
  have lt: "length cc < 2 ^ LENGTH('a)"
    using assms unsigned_less[of "- 1 :: 'a word", where 'a = nat] by (rule le_less_trans)
  then have un: "unat (of_nat (length cc) :: 'a word) = length cc" by (simp add: unat_of_nat)
  have n0: "?n \<noteq> 0" using un by (auto simp: unat_eq_0[symmetric] simp del: unat_eq_0)
  have nle: "unat ?n \<le> unat (- 1 :: 'a word)" by (simp add: word_le_nat_alt[symmetric])
  have len: "length ?e = unat Rank" by simp
  have nz: "0 \<notin> set ?e"
    using n0 by (auto dest!: set_update_subset_insert[THEN subsetD])
  have fits: "prod_list (map unat ?e) \<le> unat (- 1 :: 'a word)"
    using nle one_le_max[where 'a = 'a] unfolding prod_list_first_extent by simp
  have cm: "c ?m = cc" by (simp add: indexed_base_init_def)
  have con: "construct Rank cc = set_extents Rank ?e ?m"
    by (simp add: construct_def resize_to_fit_def size_c_def Let_def cm)
  have sh: "shape_ok Rank (?m\<lparr>extents_i := ?e @ drop (length ?e) (extents_i ?m)\<rparr>)"
    using shape_ok_init len nz fits by (rule shape_ok_extents_update)
  have res: "set_extents Rank ?e ?m
      = (None, recalculate_strides Rank (?m\<lparr>extents_i := ?e @ drop (length ?e) (extents_i ?m)\<rparr>))"
    using nz fits unfolding set_extents_cases by (simp add: not_less)
  show ?thesis
    unfolding con res using stats_ok_recalculate_strides[OF sh] cm by simp
qed

lemma reachable_stats_ok: "reachable Rank m \<Longrightarrow> stats_ok Rank m"
proof (induction rule: reachable.induct)
  case (constructed cc)
  then show ?case using construct_ok by blast
next
  case (after_extents m e)
  then show ?case by (simp add: stats_ok_set_extents)
next
  case (after_priorities m p)
  then show ?case by (simp add: stats_ok_set_priorities)
next
  case (after_extents_and_priorities m e p)
  then show ?case by (simp add: stats_ok_extents_and_priorities)
next
  case (after_row_major m)
  then show ?case by (simp add: use_row_major_order_def stats_ok_set_priorities)
next
  case (after_column_major m)
  then show ?case by (simp add: use_column_major_order_def stats_ok_set_priorities)
next
  case (after_writes m cs)
  then show ?case by simp
qed

lemma required_size_prod:
  fixes s :: "('a::len, 'z) indexed_base_scheme"
  assumes ok: "stats_ok Rank s"
  shows "unat (required_size s) = prod_list (map unat (extents Rank s))"
proof (cases "Rank = 0")
  case True
  then show ?thesis using ok
    by (simp add: stats_ok_def shape_ok_def required_size_def extents_def)
next
  case False
  let ?r = "unat Rank"
  let ?ext = "extents_i s"
  let ?p = "priorities_i s"
  let ?E = "\<lambda>q. unat (?ext ! unat q)"
  have sh: "shape_ok Rank s" and ag: "strides_agree Rank s"
    using ok by (simp_all add: stats_ok_def)
  from False have r: "stats_length Rank = ?r" "0 < ?r" using stats_length_pos by auto
  have lens: "length ?ext = ?r" "length ?p = ?r"
    using sh r by (simp_all add: shape_ok_def)
  have pp: "priorities Rank s = ?p" "extents Rank s = ?ext"
    using lens by (simp_all add: priorities_def extents_def)
  have perm: "distinct ?p" "set ?p = {x. x < Rank}"
    using sh pp by (simp_all add: shape_ok_def is_permutation_row_major)
  have fits: "prod_list (map unat ?ext) \<le> unat (- 1 :: 'a word)"
    using sh by (simp add: shape_ok_def)
  obtain p0 ptl where p: "?p = p0 # ptl" using lens r by (cases ?p) auto
  have p0: "p0 = ?p ! 0" using p by simp
  have d0: "unat p0 < ?r" using perm(2) p by (auto simp: word_less_nat_alt)
  have inl: "\<And>q. q \<in> set ptl \<Longrightarrow> unat q < length ?ext"
    using perm(2) p lens by (auto simp: word_less_nat_alt)
  have "unat (strides_i s ! unat p0)
      = spec_stride (map unat ?ext) (map unat ?p) (unat p0)"
    using ag d0 pp by (simp add: strides_agree_def list_all_iff)
  also have "\<dots> = prod_list (map (\<lambda>q. map unat ?ext ! q) (map unat ptl))"
    by (simp add: spec_stride_def less_major_def p)
  also have "\<dots> = prod_list (map ?E ptl)"
    unfolding map_map by (rule arg_cong[where f = prod_list], rule map_cong[OF refl])
      (simp add: inl)
  finally have st: "unat (strides_i s ! unat p0) = prod_list (map ?E ptl)" .
  have "prod_list (map ?E ?p) = prod_list (map (\<lambda>k. unat (?ext ! k)) [0..<?r])"
    by (rule prod_list_permuted[OF perm])
  also have "\<dots> = prod_list (map unat ?ext)"
    using map_nth_unat[of ?ext] lens(1) by simp
  finally have all: "?E p0 * prod_list (map ?E ptl) = prod_list (map unat ?ext)"
    by (simp add: p)
  have lt: "prod_list (map unat ?ext) < 2 ^ LENGTH('a)"
    using fits unsigned_less[of "- 1 :: 'a word", where 'a = nat] by (rule le_less_trans)
  have "?E p0 * unat (strides_i s ! unat p0) < 2 ^ LENGTH('a)"
    using lt by (simp only: st all)
  then have "unat (?ext ! unat p0 * strides_i s ! unat p0)
      = ?E p0 * unat (strides_i s ! unat p0)"
    by (simp add: unat_mult_lem)
  then show ?thesis using all st p0 pp by (simp add: required_size_def Let_def)
qed
text \<open>
  C3. In every adapter a program can hold (constructed, then changed by
  \<^verbatim>\<open>extents\<close>, \<^verbatim>\<open>priorities\<close>, \<^verbatim>\<open>extents_and_priorities\<close> and their relatives) the
  cached stride of each dimension is the product of the extents of the dimensions less
  major than it under the current priorities, and \<^verbatim>\<open>required_size()\<close> is the product
  of all current extents, which is 1 when there are no dimensions.
\<close>

theorem strides_and_required_size:
  "reachable Rank m \<Longrightarrow>
     strides_agree Rank m
     \<and> unat (required_size m) = prod_list (map unat (extents Rank m))
     \<and> (Rank = 0 \<longrightarrow> required_size m = 1)"
proof -
  assume "reachable Rank m"
  then have ok: "stats_ok Rank m" by (rule reachable_stats_ok)
  have "required_size m = 1" if "Rank = 0"
    using ok that by (simp add: stats_ok_def shape_ok_def required_size_def)
  then show ?thesis
    using ok required_size_prod[OF ok] by (simp add: stats_ok_def)
qed

theorem strides_and_required_size_witness:
  "reachable (2 :: 64 word)
     \<lparr>extents_i = [2, 3], priorities_i = [1, 0], strides_i = [1, 2],
      c = [10, 20, 30, 40, 50, 60 :: int]\<rparr>
   \<and> strides_agree (2 :: 64 word)
     \<lparr>extents_i = [2, 3], priorities_i = [1, 0], strides_i = [1, 2],
      c = [10, 20, 30, 40, 50, 60 :: int]\<rparr>
   \<and> spec_stride [2, 3] [1, 0] 0 = 1 \<and> spec_stride [2, 3] [1, 0] 1 = 2
   \<and> required_size
     \<lparr>extents_i = [2, 3 :: 64 word], priorities_i = [1, 0], strides_i = [1, 2],
      c = [10, 20, 30, 40, 50, 60 :: int]\<rparr> = 6"
proof -
  let ?cc = "[10, 20, 30, 40, 50, 60 :: int]"
  let ?M = "\<lparr>extents_i = [2, 3 :: 64 word], priorities_i = [1, 0], strides_i = [1, 2], c = ?cc\<rparr>"
  have l: "length ?cc \<le> unat (- 1 :: 64 word)"
    by (simp add: unsigned_minus_1_eq_mask mask_eq_exp_minus_1)
  have r0: "reachable (2 :: 64 word) (snd (construct 2 ?cc))"
    using l by (rule reachable.constructed)
  have le: "length [2, 3 :: 64 word] = unat (2 :: 64 word)"
    and lp: "length [1, 0 :: 64 word] = unat (2 :: 64 word)" by simp_all
  have ev: "snd (extents_and_priorities (2 :: 64 word) [2, 3] [1, 0] (snd (construct 2 ?cc))) = ?M"
    by code_simp
  have r1: "reachable (2 :: 64 word) ?M"
    using reachable.after_extents_and_priorities[OF r0 le lp] unfolding ev .
  have s0: "spec_stride [2, 3] [1, 0] 0 = 1" and s1: "spec_stride [2, 3] [1, 0] 1 = 2"
    by code_simp+
  have rs: "required_size ?M = 6" by code_simp
  from strides_and_required_size[OF r1] have "strides_agree (2 :: 64 word) ?M" by (rule conjunct1)
  then show ?thesis by (intro conjI r1 s0 s1 rs)
qed

text \<open>
  C5. \<^verbatim>\<open>extents_and_priorities(e, p)\<close> is atomic. A call that throws leaves the
  object exactly as it was; in particular, when the extents were accepted and stored and
  the priorities are then rejected, the saved extents are put back and the exception of
  the priorities is the one thrown. The call returns exactly when \<^verbatim>\<open>extents(e)\<close> and
  \<^verbatim>\<open>priorities(p)\<close> would each return, and then \<^verbatim>\<open>extents()\<close> is \<open>e\<close>,
  \<^verbatim>\<open>priorities()\<close> is \<open>p\<close> and the strides are those of the new shape.
\<close>

theorem extents_and_priorities_atomic:
  fixes Rank :: "'a::len word"
  shows "reachable Rank m \<Longrightarrow> length e = unat Rank \<Longrightarrow> length p = unat Rank \<Longrightarrow>
     (fst (extents_and_priorities Rank e p m) \<noteq> None
        \<longrightarrow> snd (extents_and_priorities Rank e p m) = m)
   \<and> (fst (update_extents e m) = None
        \<and> fst (update_priorities Rank p (snd (update_extents e m))) \<noteq> None
        \<longrightarrow> extents_and_priorities Rank e p m
            = (fst (update_priorities Rank p (snd (update_extents e m))), m))
   \<and> (fst (extents_and_priorities Rank e p m) = None
        \<longleftrightarrow> fst (set_extents Rank e m) = None \<and> fst (set_priorities Rank p m) = None)
   \<and> (fst (extents_and_priorities Rank e p m) = None
        \<longrightarrow> extents Rank (snd (extents_and_priorities Rank e p m)) = e
          \<and> priorities Rank (snd (extents_and_priorities Rank e p m)) = p
          \<and> strides_agree Rank (snd (extents_and_priorities Rank e p m))
          \<and> unat (required_size (snd (extents_and_priorities Rank e p m)))
              = prod_list (map unat e))"
proof -
  assume re: "reachable Rank m" and le: "length e = unat Rank" and lp: "length p = unat Rank"
  have ok: "stats_ok Rank m" using re by (rule reachable_stats_ok)
  then have sh: "shape_ok Rank m" by (simp add: stats_ok_def)
  note cases = extents_and_priorities_cases[OF sh le, of p]
  have ok': "stats_ok Rank (snd (extents_and_priorities Rank e p m))"
    using ok le lp by (rule stats_ok_extents_and_priorities)
  let ?bad = "0 \<in> set e \<or> unat (- 1 :: 'a word) < prod_list (map unat e)
      \<or> (\<exists>x\<in>set p. Rank \<le> x) \<or> \<not> (distinct p \<and> set p = {x. x < Rank})"
  let ?new = "recalculate_strides Rank
        (m\<lparr>extents_i := e @ drop (length e) (extents_i m),
           priorities_i := p @ drop (length p) (priorities_i m)\<rparr>)"
  have bad: "fst (extents_and_priorities Rank e p m) \<noteq> None
      \<and> snd (extents_and_priorities Rank e p m) = m" if ?bad
    using that unfolding cases by auto
  have good: "extents_and_priorities Rank e p m = (None, ?new)" if "\<not> ?bad"
    using that unfolding cases by simp
  have 1: "fst (extents_and_priorities Rank e p m) \<noteq> None
      \<longrightarrow> snd (extents_and_priorities Rank e p m) = m"
    using bad good by (cases ?bad) simp_all
  have 2: "fst (update_extents e m) = None
        \<and> fst (update_priorities Rank p (snd (update_extents e m))) \<noteq> None
        \<longrightarrow> extents_and_priorities Rank e p m
            = (fst (update_priorities Rank p (snd (update_extents e m))), m)"
    unfolding cases update_extents_cases update_priorities_cases by simp
  have 3: "fst (extents_and_priorities Rank e p m) = None
        \<longleftrightarrow> fst (set_extents Rank e m) = None \<and> fst (set_priorities Rank p m) = None"
    unfolding cases set_extents_cases set_priorities_cases by simp
  have 4: "fst (extents_and_priorities Rank e p m) = None
        \<longrightarrow> extents Rank (snd (extents_and_priorities Rank e p m)) = e
          \<and> priorities Rank (snd (extents_and_priorities Rank e p m)) = p
          \<and> strides_agree Rank (snd (extents_and_priorities Rank e p m))
          \<and> unat (required_size (snd (extents_and_priorities Rank e p m)))
              = prod_list (map unat e)"
  proof (rule impI)
    assume s: "fst (extents_and_priorities Rank e p m) = None"
    have "\<not> ?bad" using bad s by blast
    then have sn: "snd (extents_and_priorities Rank e p m) = ?new"
      using good by simp
    have ex: "extents Rank (snd (extents_and_priorities Rank e p m)) = e"
      unfolding sn using le by (simp add: extents_def)
    have pr: "priorities Rank (snd (extents_and_priorities Rank e p m)) = p"
      unfolding sn using lp by (simp add: priorities_def)
    have sa: "strides_agree Rank (snd (extents_and_priorities Rank e p m))"
      using ok' by (simp add: stats_ok_def)
    have rq: "unat (required_size (snd (extents_and_priorities Rank e p m)))
              = prod_list (map unat e)"
      using required_size_prod[OF ok'] by (simp only: ex)
    show "extents Rank (snd (extents_and_priorities Rank e p m)) = e
          \<and> priorities Rank (snd (extents_and_priorities Rank e p m)) = p
          \<and> strides_agree Rank (snd (extents_and_priorities Rank e p m))
          \<and> unat (required_size (snd (extents_and_priorities Rank e p m)))
              = prod_list (map unat e)"
      by (intro conjI ex pr sa rq)
  qed
  show ?thesis by (intro conjI 1 2 3 4)
qed

theorem extents_and_priorities_atomic_witness:
  "reachable (2 :: 64 word)
     \<lparr>extents_i = [6, 1], priorities_i = [0, 1], strides_i = [1, 1],
      c = [10, 20, 30, 40, 50, 60 :: int]\<rparr>
   \<and> length [9, 2 :: 64 word] = unat (2 :: 64 word)
   \<and> length [1, 1 :: 64 word] = unat (2 :: 64 word)
   \<and> fst (update_extents [9, 2 :: 64 word]
        \<lparr>extents_i = [6, 1], priorities_i = [0, 1], strides_i = [1, 1],
         c = [10, 20, 30, 40, 50, 60 :: int]\<rparr>) = None
   \<and> extents_and_priorities (2 :: 64 word) [9, 2] [1, 1]
        \<lparr>extents_i = [6, 1], priorities_i = [0, 1], strides_i = [1, 1],
         c = [10, 20, 30, 40, 50, 60 :: int]\<rparr>
       = (Some invalid_argument,
          \<lparr>extents_i = [6, 1], priorities_i = [0, 1], strides_i = [1, 1],
           c = [10, 20, 30, 40, 50, 60 :: int]\<rparr>)"
proof -
  let ?cc = "[10, 20, 30, 40, 50, 60 :: int]"
  let ?M = "\<lparr>extents_i = [6, 1 :: 64 word], priorities_i = [0, 1], strides_i = [1, 1], c = ?cc\<rparr>"
  have l: "length ?cc \<le> unat (- 1 :: 64 word)"
    by (simp add: unsigned_minus_1_eq_mask mask_eq_exp_minus_1)
  have ev: "snd (construct (2 :: 64 word) ?cc) = ?M" by code_simp
  have r0: "reachable (2 :: 64 word) ?M"
    using reachable.constructed[OF l, of 2] unfolding ev .
  have le: "length [9, 2 :: 64 word] = unat (2 :: 64 word)"
    and lp: "length [1, 1 :: 64 word] = unat (2 :: 64 word)" by simp_all
  have ue: "fst (update_extents [9, 2 :: 64 word] ?M) = None" by code_simp
  have up: "fst (update_priorities (2 :: 64 word) [1, 1] (snd (update_extents [9, 2] ?M)))
      = Some invalid_argument" by code_simp
  then have un: "fst (update_priorities (2 :: 64 word) [1, 1] (snd (update_extents [9, 2] ?M)))
      \<noteq> None" by simp
  note t = extents_and_priorities_atomic[OF r0 le lp]
  from t have "fst (update_extents [9, 2] ?M) = None
        \<and> fst (update_priorities 2 [1, 1] (snd (update_extents [9, 2] ?M))) \<noteq> None
        \<longrightarrow> extents_and_priorities 2 [9, 2] [1, 1] ?M
            = (fst (update_priorities 2 [1, 1] (snd (update_extents [9, 2] ?M))), ?M)"
    by (elim conjE)
  from this conjI[OF ue un] have "extents_and_priorities 2 [9, 2] [1, 1] ?M
      = (fst (update_priorities 2 [1, 1] (snd (update_extents [9, 2] ?M))), ?M)"
    by (rule mp)
  then have res: "extents_and_priorities 2 [9, 2] [1, 1] ?M = (Some invalid_argument, ?M)"
    by (simp only: up)
  show ?thesis by (intro conjI r0 le lp ue res)
qed

theorem set_extents_validation_witness:
  "length [2, 3 :: 64 word] = unat (2 :: 64 word)
   \<and> 0 \<notin> set [2, 3 :: 64 word]
   \<and> prod_list (map unat [2, 3 :: 64 word]) \<le> unat (- 1 :: 64 word)
   \<and> fst (set_extents (2 :: 64 word) [2, 3]
        \<lparr>extents_i = [6, 1], priorities_i = [0, 1], strides_i = [1, 1]\<rparr>) = None
   \<and> extents (2 :: 64 word) (snd (set_extents (2 :: 64 word) [2, 3]
        \<lparr>extents_i = [6, 1], priorities_i = [0, 1], strides_i = [1, 1]\<rparr>)) = [2, 3]
   \<and> set_extents (2 :: 64 word) [0, 4]
        \<lparr>extents_i = [6, 1], priorities_i = [0, 1], strides_i = [1, 1]\<rparr>
       = (Some out_of_range, \<lparr>extents_i = [6, 1], priorities_i = [0, 1], strides_i = [1, 1]\<rparr>)
   \<and> set_extents (2 :: 64 word) [0x7FFFFFFFFFFFFFFF, 0x7FFFFFFFFFFFFFFF]
        \<lparr>extents_i = [6, 1], priorities_i = [0, 1], strides_i = [1, 1]\<rparr>
       = (Some overflow_error, \<lparr>extents_i = [6, 1], priorities_i = [0, 1], strides_i = [1, 1]\<rparr>)"
proof -
  let ?M = "\<lparr>extents_i = [6, 1 :: 64 word], priorities_i = [0, 1], strides_i = [1, 1]\<rparr>"
  have le: "length [2, 3 :: 64 word] = unat (2 :: 64 word)" by simp
  have nz: "0 \<notin> set [2, 3 :: 64 word]" by simp
  have fits: "prod_list (map unat [2, 3 :: 64 word]) \<le> unat (- 1 :: 64 word)"
    by (simp add: unsigned_minus_1_eq_mask mask_eq_exp_minus_1)
  note t = set_extents_validation[OF le, of ?M]
  from t have iff: "fst (set_extents 2 [2, 3] ?M) = None
      \<longleftrightarrow> 0 \<notin> set [2, 3 :: 64 word]
        \<and> prod_list (map unat [2, 3 :: 64 word]) \<le> unat (- 1 :: 64 word)"
    by (elim conjE)
  have ok: "fst (set_extents 2 [2, 3] ?M) = None"
    using iff conjI[OF nz fits] by (rule iffD2)
  from t have "fst (set_extents 2 [2, 3] ?M) = None
      \<longrightarrow> extents 2 (snd (set_extents 2 [2, 3] ?M)) = [2, 3]"
    by (elim conjE)
  from this ok have ex: "extents 2 (snd (set_extents 2 [2, 3] ?M)) = [2, 3]" by (rule mp)
  have z: "set_extents (2 :: 64 word) [0, 4] ?M = (Some out_of_range, ?M)" by code_simp
  have o: "set_extents (2 :: 64 word) [0x7FFFFFFFFFFFFFFF, 0x7FFFFFFFFFFFFFFF] ?M
      = (Some overflow_error, ?M)" by code_simp
  show ?thesis by (intro conjI le nz fits ok ex z o)
qed

theorem set_priorities_validation_witness:
  "length [1, 0 :: 64 word] = unat (2 :: 64 word)
   \<and> \<not> list_ex (\<lambda>x. unat (2 :: 64 word) \<le> unat x) [1, 0 :: 64 word]
   \<and> distinct [1, 0 :: 64 word]
   \<and> \<not> list_ex (\<lambda>v. of_nat v \<notin> set [1, 0 :: 64 word]) [0..<unat (2 :: 64 word)]
   \<and> fst (set_priorities (2 :: 64 word) [1, 0]
        \<lparr>extents_i = [4, 6], priorities_i = [0, 1], strides_i = [6, 1]\<rparr>) = None
   \<and> priorities (2 :: 64 word) (snd (set_priorities (2 :: 64 word) [1, 0]
        \<lparr>extents_i = [4, 6], priorities_i = [0, 1], strides_i = [6, 1]\<rparr>)) = [1, 0]
   \<and> set_priorities (2 :: 64 word) [1, 1]
        \<lparr>extents_i = [4, 6], priorities_i = [0, 1], strides_i = [6, 1]\<rparr>
       = (Some invalid_argument, \<lparr>extents_i = [4, 6], priorities_i = [0, 1], strides_i = [6, 1]\<rparr>)
   \<and> set_priorities (2 :: 64 word) [0, 5]
        \<lparr>extents_i = [4, 6], priorities_i = [0, 1], strides_i = [6, 1]\<rparr>
       = (Some out_of_range, \<lparr>extents_i = [4, 6], priorities_i = [0, 1], strides_i = [6, 1]\<rparr>)"
proof -
  let ?M = "\<lparr>extents_i = [4, 6 :: 64 word], priorities_i = [0, 1], strides_i = [6, 1]\<rparr>"
  have lp: "length [1, 0 :: 64 word] = unat (2 :: 64 word)" by simp
  have a: "\<not> list_ex (\<lambda>x. unat (2 :: 64 word) \<le> unat x) [1, 0 :: 64 word]" by simp
  have b: "distinct [1, 0 :: 64 word]" by simp
  have c: "\<not> list_ex (\<lambda>v. of_nat v \<notin> set [1, 0 :: 64 word]) [0..<unat (2 :: 64 word)]"
    by code_simp
  note t = set_priorities_validation[OF lp, of ?M]
  from t have "\<not> list_ex (\<lambda>x. unat (2 :: 64 word) \<le> unat x) [1, 0 :: 64 word]
      \<and> distinct [1, 0 :: 64 word]
      \<and> \<not> list_ex (\<lambda>v. of_nat v \<notin> set [1, 0 :: 64 word]) [0..<unat (2 :: 64 word)]
      \<longrightarrow> fst (set_priorities 2 [1, 0] ?M) = None
        \<and> priorities 2 (snd (set_priorities 2 [1, 0] ?M)) = [1, 0]"
    by (elim conjE)
  from this conjI[OF a conjI[OF b c]]
  have ok: "fst (set_priorities 2 [1, 0] ?M) = None
        \<and> priorities 2 (snd (set_priorities 2 [1, 0] ?M)) = [1, 0]"
    by (rule mp)
  have r: "set_priorities (2 :: 64 word) [1, 1] ?M = (Some invalid_argument, ?M)" by code_simp
  have o: "set_priorities (2 :: 64 word) [0, 5] ?M = (Some out_of_range, ?M)" by code_simp
  show ?thesis by (intro conjI lp a b c ok[THEN conjunct1] ok[THEN conjunct2] r o)
qed

lemma odometer_turnover:
  fixes j S E :: nat
  assumes "0 < S" and "0 < E"
  shows "Suc j mod (E * S) = 0 \<longleftrightarrow> Suc j mod S = 0 \<and> (Suc j div S) mod E = 0"
proof -
  have "Suc j mod (S * E) = S * (Suc j div S mod E) + Suc j mod S"
    by (rule mod_mult2_eq)
  then show ?thesis using assms by (auto simp: mult.commute)
qed

lemma odometer_digit:
  fixes j S E :: nat
  assumes "0 < S" and "0 < E"
  shows "(Suc j div S) mod E =
     (if Suc j mod S = 0
      then (if E \<le> Suc ((j div S) mod E) then 0 else Suc ((j div S) mod E))
      else (j div S) mod E)"
proof (cases "Suc j mod S = 0")
  case True
  then have "Suc j div S = Suc (j div S)" by (simp add: div_Suc)
  moreover have "(j div S) mod E < E" using assms(2) by simp
  ultimately show ?thesis using True by (auto simp: mod_Suc)
next
  case False
  then have "Suc j div S = j div S" by (simp add: div_Suc)
  then show ?thesis using False by simp
qed

lemma advance_loop_spec:
  fixes ext idx :: "'a::len word list"
  defines "E \<equiv> \<lambda>w. unat (ext ! unat w)"
  assumes dist: "distinct (pre @ post)"
    and bnd: "\<forall>w\<in>set (pre @ post). unat w < length idx \<and> ext ! unat w \<noteq> 0"
    and old: "\<forall>w\<in>set pre. unat (idx ! unat w)
        = (j div prod_list (map E (tl (dropWhile (\<lambda>q. q \<noteq> w) (pre @ post))))) mod E w"
    and new: "\<forall>w\<in>set post. unat (idx ! unat w)
        = (Suc j div prod_list (map E (tl (dropWhile (\<lambda>q. q \<noteq> w) (pre @ post))))) mod E w"
    and tn: "turnover \<longleftrightarrow> Suc j mod prod_list (map E post) = 0"
  shows "length (snd (advance_loop ext (rev pre) turnover idx)) = length idx
     \<and> (\<forall>w\<in>set (pre @ post). unat (snd (advance_loop ext (rev pre) turnover idx) ! unat w)
          = (Suc j div prod_list (map E (tl (dropWhile (\<lambda>q. q \<noteq> w) (pre @ post))))) mod E w)
     \<and> (fst (advance_loop ext (rev pre) turnover idx)
          \<longleftrightarrow> Suc j mod prod_list (map E (pre @ post)) = 0)"
  using dist bnd old new tn
proof (induction pre arbitrary: post turnover idx rule: rev_induct)
  case Nil
  then show ?case by simp
next
  case (snoc w pre)
  let ?full = "pre @ w # post"
  let ?S = "\<lambda>v. prod_list (map E (tl (dropWhile (\<lambda>q. q \<noteq> v) ?full)))"
  let ?k = "unat w"
  let ?d = "(j div ?S w) mod E w"
  have full: "(pre @ [w]) @ post = ?full" by simp
  have dist: "distinct ?full" using snoc.prems(1) by simp
  have "dropWhile (\<lambda>q. q \<noteq> w) ?full = dropWhile (\<lambda>q. q \<noteq> w) (w # post)"
    using dist by (intro dropWhile_append2) auto
  then have Sw: "?S w = prod_list (map E post)" by simp
  have kb: "?k < length idx" and Enz: "ext ! ?k \<noteq> 0" using snoc.prems(2) by simp_all
  have Epos: "0 < E w" using Enz by (simp add: E_def unat_gt_0)
  have Spos: "0 < prod_list (map E post)"
  proof (rule prod_list_pos)
    have "\<forall>v\<in>set post. E v \<noteq> 0"
      using snoc.prems(2) by (simp add: E_def unat_eq_0)
    then show "0 \<notin> set (map E post)" by force
  qed
  have d: "unat (idx ! ?k) = ?d" using snoc.prems(3) unfolding full by simp
  have dlt: "?d < E w" using Epos by simp
  have Elt: "E w < 2 ^ LENGTH('a)" unfolding E_def by (rule unsigned_less)
  let ?inc = "idx ! ?k + (if turnover then 1 else 0)"
  let ?t' = "ext ! ?k \<le> ?inc"
  let ?reset = "?inc * (if ?t' then 0 else 1)"
  have SwPos: "0 < ?S w" using Sw Spos by simp
  have tS: "turnover \<longleftrightarrow> Suc j mod ?S w = 0" using snoc.prems(5) Sw by simp
  note dg = odometer_digit[OF SwPos Epos, of j]
  note tv = odometer_turnover[OF SwPos Epos, of j]
  have res: "unat ?reset = (Suc j div ?S w) mod E w
      \<and> (?t' \<longleftrightarrow> Suc j mod (E w * ?S w) = 0)"
  proof (cases turnover)
    case True
    then have m0: "Suc j mod ?S w = 0" using tS by simp
    have "unat (idx ! ?k) + unat (1 :: 'a word) < 2 ^ LENGTH('a)"
      using d dlt Elt by simp
    then have "unat (idx ! ?k + 1) = unat (idx ! ?k) + unat (1 :: 'a word)"
      by (rule unat_add_lem[THEN iffD1])
    then have ui: "unat (idx ! ?k + 1) = Suc ?d" using d by simp
    have t': "ext ! ?k \<le> idx ! ?k + 1 \<longleftrightarrow> E w \<le> Suc ?d"
      by (simp only: word_le_nat_alt ui E_def)
    show ?thesis
    proof (cases "E w \<le> Suc ?d")
      case True
      then have "(Suc j div ?S w) mod E w = 0" using dg m0 by simp
      then show ?thesis using \<open>turnover\<close> True t' tv m0 by simp
    next
      case False
      then have "(Suc j div ?S w) mod E w = Suc ?d" using dg m0 by simp
      then show ?thesis using \<open>turnover\<close> False t' tv m0 ui by simp
    qed
  next
    case False
    then have m0: "Suc j mod ?S w \<noteq> 0" using tS by simp
    have t': "\<not> ext ! ?k \<le> idx ! ?k"
      using dlt d by (simp add: word_le_nat_alt E_def)
    have "(Suc j div ?S w) mod E w = ?d" using dg m0 by simp
    then show ?thesis using False t' tv m0 d by simp
  qed
  have ureset: "unat ?reset = (Suc j div ?S w) mod E w" using res by (rule conjunct1)
  have t'new: "?t' \<longleftrightarrow> Suc j mod prod_list (map E (w # post)) = 0"
    using res Sw by simp
  define r where "r = ?reset"
  define tt where "tt = ?t'"
  have step: "advance_loop ext (rev (pre @ [w])) turnover idx
      = advance_loop ext (rev pre) tt (idx[?k := r])"
    by (simp add: Let_def r_def tt_def)
  have ur: "unat r = (Suc j div ?S w) mod E w" using ureset by (simp only: r_def)
  have tn': "tt \<longleftrightarrow> Suc j mod prod_list (map E (w # post)) = 0"
    using t'new by (simp only: tt_def)
  note old = snoc.prems(3)[unfolded full, rule_format]
  note new = snoc.prems(4)[unfolded full, rule_format]
  have ne: "unat v \<noteq> ?k" if "v \<in> set pre \<or> v \<in> set post" for v
    using that dist by (auto simp: word_unat_eq_iff[symmetric])
  have bnd': "\<forall>v\<in>set (pre @ w # post). unat v < length (idx[?k := r]) \<and> ext ! unat v \<noteq> 0"
    using snoc.prems(2) by simp
  have old': "\<forall>v\<in>set pre. unat (idx[?k := r] ! unat v) = (j div ?S v) mod E v"
  proof
    fix v assume v: "v \<in> set pre"
    then have "idx[?k := r] ! unat v = idx ! unat v" using ne[of v] by simp
    moreover have "unat (idx ! unat v) = (j div ?S v) mod E v"
      using v by (intro old) simp
    ultimately show "unat (idx[?k := r] ! unat v) = (j div ?S v) mod E v" by (simp only:)
  qed
  have new': "\<forall>v\<in>set (w # post). unat (idx[?k := r] ! unat v) = (Suc j div ?S v) mod E v"
  proof
    fix v assume "v \<in> set (w # post)"
    then consider "v = w" | "v \<in> set post" by auto
    then show "unat (idx[?k := r] ! unat v) = (Suc j div ?S v) mod E v"
    proof cases
      case 1
      have "idx[?k := r] ! ?k = r" using kb by simp
      then show ?thesis using ur 1 by (simp only:)
    next
      case 2
      then have "idx[?k := r] ! unat v = idx ! unat v" using ne[of v] by simp
      moreover have "unat (idx ! unat v) = (Suc j div ?S v) mod E v"
        using 2 by (rule new)
      ultimately show ?thesis by (simp only:)
    qed
  qed
  note IH = snoc.IH[OF dist bnd' old' new' tn']
  from IH have c1: "length (snd (advance_loop ext (rev pre) tt (idx[?k := r]))) = length idx"
    by simp
  from IH have c2: "\<forall>v\<in>set (pre @ w # post).
      unat (snd (advance_loop ext (rev pre) tt (idx[?k := r])) ! unat v)
        = (Suc j div ?S v) mod E v"
    by (elim conjE)
  from IH have c3: "fst (advance_loop ext (rev pre) tt (idx[?k := r]))
      \<longleftrightarrow> Suc j mod prod_list (map E (pre @ w # post)) = 0"
    by (elim conjE)
  show ?case unfolding step full by (intro conjI c1 c2 c3)
qed
lemma spec_stride_word:
  fixes s :: "('a::len, 'z) indexed_base_scheme"
  assumes sh: "shape_ok Rank s" and w: "w \<in> set (priorities Rank s)"
  shows "spec_stride (map unat (extents Rank s)) (map unat (priorities Rank s)) (unat w)
     = prod_list (map (\<lambda>q. unat (extents_i s ! unat q))
         (tl (dropWhile (\<lambda>q. q \<noteq> w) (priorities Rank s))))"
proof -
  let ?p = "priorities Rank s"
  let ?post = "tl (dropWhile (\<lambda>q. q \<noteq> w) ?p)"
  have perm: "set ?p = {x. x < Rank}"
    using sh by (simp add: shape_ok_def is_permutation_row_major)
  have mem: "q < Rank" if "q \<in> set ?p" for q
    using that unfolding perm by (rule CollectD)
  have "w < Rank" using w by (rule mem)
  then have "Rank \<noteq> 0" by (metis word_not_simps(1))
  then have "stats_length Rank = unat Rank" using stats_length_pos by auto
  then have lx: "length (extents_i s) = unat Rank"
    using sh by (simp add: shape_ok_def)
  then have ex: "extents Rank s = extents_i s" by (simp add: extents_def)
  have inl: "unat q < length (extents_i s)" if "q \<in> set ?post" for q
  proof -
    have "q \<in> set ?p" using that set_tl_dropWhile[of "\<lambda>q. q \<noteq> w" ?p] by (rule subsetD[rotated])
    then have "q < Rank" by (rule mem)
    then show ?thesis unfolding lx by (simp only: word_less_nat_alt)
  qed
  have meq: "map (\<lambda>q. map unat (extents Rank s) ! q) (map unat ?post)
      = map (\<lambda>q. unat (extents_i s ! unat q)) ?post"
    unfolding map_map ex
    by (rule map_cong[OF refl]) (simp add: inl)
  have "spec_stride (map unat (extents Rank s)) (map unat ?p) (unat w)
      = prod_list (map (\<lambda>q. map unat (extents Rank s) ! q) (map unat ?post))"
    by (simp only: spec_stride_def less_major_map_unat)
  then show ?thesis by (simp only: meq)
qed

lemma advance_index_pack_spec:
  fixes s :: "('a::len, 'z) indexed_base_scheme"
  assumes sh: "shape_ok Rank s"
    and enc: "map unat idx
      = mixed_radix_tuple (map unat (extents Rank s)) (map unat (priorities Rank s)) j"
  shows "map unat (snd (advance_index_pack Rank s idx))
      = mixed_radix_tuple (map unat (extents Rank s)) (map unat (priorities Rank s)) (Suc j)"
proof -
  let ?p = "priorities Rank s"
  let ?e = "map unat (extents Rank s)"
  let ?E = "\<lambda>w. unat (extents_i s ! unat w)"
  let ?S = "\<lambda>w. prod_list (map ?E (tl (dropWhile (\<lambda>q. q \<noteq> w) ?p)))"
  let ?idx' = "snd (advance_index_pack Rank s idx)"
  have perm: "distinct ?p" "set ?p = {x. x < Rank}"
    using sh by (simp_all add: shape_ok_def is_permutation_row_major)
  have lp: "length ?p = unat Rank"
    using sh is_permutation_length[of ?p "row_major_order Rank"] by (simp add: shape_ok_def)
  have li: "length idx = unat Rank"
    using arg_cong[OF enc, of length] lp by (simp add: mixed_radix_tuple_def)
  have mem: "w < Rank" if "w \<in> set ?p" for w
    using that unfolding perm(2) by (rule CollectD)
  have inb: "unat w < unat Rank" if "w \<in> set ?p" for w
    using mem[OF that] by (simp only: word_less_nat_alt)
  have lext: "length (extents_i s) = unat Rank" if "w \<in> set ?p" for w
  proof -
    have "w < Rank" using that by (rule mem)
    then have "Rank \<noteq> 0" by (metis word_not_simps(1))
    then have "stats_length Rank = unat Rank" using stats_length_pos by auto
    then show ?thesis using sh by (simp add: shape_ok_def)
  qed
  have Ew: "?e ! unat w = ?E w" if "w \<in> set ?p" for w
    using inb[OF that] lext[OF that] by (simp add: extents_def)
  have digit: "unat (idx ! unat w) = (j div ?S w) mod ?E w" if w: "w \<in> set ?p" for w
  proof -
    have "unat (idx ! unat w) = map unat idx ! unat w" using inb[OF w] li by simp
    also have "\<dots> = (j div spec_stride ?e (map unat ?p) (unat w)) mod ?e ! unat w"
      unfolding enc using inb[OF w] lp by (simp add: mixed_radix_tuple_def)
    finally show ?thesis by (simp only: spec_stride_word[OF sh w] Ew[OF w])
  qed
  have dist: "distinct (?p @ [])" using perm(1) by simp
  have bnd: "\<forall>w\<in>set (?p @ []). unat w < length idx \<and> extents_i s ! unat w \<noteq> 0"
  proof
    fix w assume "w \<in> set (?p @ [])"
    then have w: "w \<in> set ?p" by simp
    have "extents_i s ! unat w \<in> set (extents_i s)" using inb[OF w] lext[OF w] by simp
    moreover have "0 \<notin> set (extents_i s)" using sh by (simp add: shape_ok_def)
    ultimately show "unat w < length idx \<and> extents_i s ! unat w \<noteq> 0"
      using inb[OF w] li by metis
  qed
  have old: "\<forall>w\<in>set ?p. unat (idx ! unat w)
        = (j div prod_list (map ?E (tl (dropWhile (\<lambda>q. q \<noteq> w) (?p @ []))))) mod ?E w"
    using digit by simp
  have new: "\<forall>w\<in>set []. unat (idx ! unat w)
        = (Suc j div prod_list (map ?E (tl (dropWhile (\<lambda>q. q \<noteq> w) (?p @ []))))) mod ?E w"
    by simp
  have tn: "True \<longleftrightarrow> Suc j mod prod_list (map ?E []) = 0" by simp
  note L = advance_loop_spec[OF dist bnd old new tn]
  have adv: "advance_index_pack Rank s idx = advance_loop (extents_i s) (rev ?p) True idx"
    by (simp add: advance_index_pack_def priorities_def)
  have li': "length ?idx' = unat Rank" using L li unfolding adv by simp
  have digit': "unat (?idx' ! unat w) = (Suc j div ?S w) mod ?E w" if w: "w \<in> set ?p" for w
    using L w unfolding adv by simp
  show ?thesis
  proof (rule nth_equalityI)
    show "length (map unat ?idx') = length (mixed_radix_tuple ?e (map unat ?p) (Suc j))"
      using li' lp by (simp add: mixed_radix_tuple_def)
  next
    fix d assume "d < length (map unat ?idx')"
    then have d: "d < unat Rank" using li' by simp
    then have "d \<in> unat ` {x. x < Rank}" by (simp add: unat_image_less)
    then have "d \<in> unat ` set ?p" by (simp only: perm(2))
    then obtain w where w: "w \<in> set ?p" "unat w = d" by (auto simp: image_iff)
    have "map unat ?idx' ! d = unat (?idx' ! unat w)" using d li' w(2) by simp
    also have "\<dots> = (Suc j div ?S w) mod ?E w" by (rule digit'[OF w(1)])
    also have "\<dots> = (Suc j div spec_stride ?e (map unat ?p) (unat w)) mod ?e ! unat w"
      by (simp only: spec_stride_word[OF sh w(1)] Ew[OF w(1)])
    also have "\<dots> = mixed_radix_tuple ?e (map unat ?p) (Suc j) ! d"
      using d lp w(2) by (simp add: mixed_radix_tuple_def)
    finally show "map unat ?idx' ! d = mixed_radix_tuple ?e (map unat ?p) (Suc j) ! d" .
  qed
qed

lemma first_index_pack_spec:
  fixes s :: "('a::len, 'z) indexed_base_scheme"
  assumes sh: "shape_ok Rank s"
  shows "map unat (first_index_pack Rank)
      = mixed_radix_tuple (map unat (extents Rank s)) (map unat (priorities Rank s)) 0"
proof -
  have "length (priorities Rank s) = unat Rank"
    using sh is_permutation_length[of "priorities Rank s" "row_major_order Rank"]
    by (simp add: shape_ok_def)
  then show ?thesis
    by (intro nth_equalityI) (simp_all add: first_index_pack_def mixed_radix_tuple_def)
qed

lemma of_nat_map_unat: "map of_nat (map unat idx) = (idx :: 'a::len word list)"
  by (induction idx) simp_all
lemma c_update_extents [simp]: "c (snd (update_extents e m)) = c m"
  by (simp add: update_extents_def)

lemma c_update_priorities [simp]: "c (snd (update_priorities Rank p m)) = c m"
  by (simp add: update_priorities_def)

lemma c_set_extents [simp]: "c (snd (set_extents Rank e m)) = c m"
  using c_update_extents[of e m]
  by (cases "update_extents e m") (auto simp: set_extents_def split: option.splits)

lemma c_set_priorities [simp]: "c (snd (set_priorities Rank p m)) = c m"
  using c_update_priorities[of Rank p m]
  by (cases "update_priorities Rank p m") (auto simp: set_priorities_def split: option.splits)

lemma c_extents_and_priorities [simp]: "c (snd (extents_and_priorities Rank e p m)) = c m"
proof -
  obtain x1 s1 where u1: "update_extents e m = (x1, s1)" by (cases "update_extents e m")
  obtain x2 s2 where u2: "update_priorities Rank p s1 = (x2, s2)"
    by (cases "update_priorities Rank p s1")
  obtain x3 s3 where u3: "update_extents (extents Rank m) s2 = (x3, s3)"
    by (cases "update_extents (extents Rank m) s2")
  have "c s1 = c m" using c_update_extents[of e m] u1 by simp
  moreover have "c s2 = c s1" using c_update_priorities[of Rank p s1] u2 by simp
  moreover have "c s3 = c s2" using c_update_extents[of "extents Rank m" s2] u3 by simp
  ultimately show ?thesis
    by (simp add: extents_and_priorities_def Let_def u1 u2 u3 split: option.splits)
qed

lemma reachable_size:
  fixes m :: "('a::len, 'e) multiarray"
  shows "reachable Rank m \<Longrightarrow> length (c m) \<le> unat (- 1 :: 'a word)"
proof (induction rule: reachable.induct)
  case (constructed cc)
  then show ?case using construct_ok[of cc Rank] by simp
qed (simp_all add: use_row_major_order_def use_column_major_order_def)

lemma unat_min: "unat (min a b) = min (unat a) (unat (b :: 'a::len word))"
  by (simp add: min_def word_le_nat_alt)

lemma apply_loop_fold:
  fixes s :: "('a::len, 'z) indexed_base_scheme"
  assumes sh: "shape_ok Rank s"
    and enc: "map unat idx
      = mixed_radix_tuple (map unat (extents Rank s)) (map unat (priorities Rank s)) j0"
  shows "apply_loop f Rank s n cur idx st cs =
     fold (\<lambda>i (st, cs).
             case f st (cs ! (cur + i))
                    (map of_nat (mixed_radix_tuple (map unat (extents Rank s))
                       (map unat (priorities Rank s)) (j0 + i))) of
               (st', x') \<Rightarrow> (st', cs[cur + i := x']))
          [0..<n] (st, cs)"
  using enc
proof (induction n arbitrary: cur idx st cs j0)
  case 0
  then show ?case by simp
next
  case (Suc n)
  let ?T = "\<lambda>j. map of_nat (mixed_radix_tuple (map unat (extents Rank s))
                       (map unat (priorities Rank s)) j) :: 'a word list"
  let ?F = "\<lambda>cur j0 i (st, cs). case f st (cs ! (cur + i)) (?T (j0 + i)) of
               (st', x') \<Rightarrow> (st', cs[cur + i := x'])"
  have idx: "idx = ?T j0" using Suc.prems of_nat_map_unat[of idx] by simp
  obtain st' x' where fx: "f st (cs ! cur) idx = (st', x')" by (cases "f st (cs ! cur) idx")
  have enc': "map unat (snd (advance_index_pack Rank s idx))
      = mixed_radix_tuple (map unat (extents Rank s)) (map unat (priorities Rank s)) (Suc j0)"
    using sh Suc.prems by (rule advance_index_pack_spec)
  have IH: "apply_loop f Rank s n (Suc cur) (snd (advance_index_pack Rank s idx)) st'
        (cs[cur := x'])
      = fold (?F (Suc cur) (Suc j0)) [0..<n] (st', cs[cur := x'])"
    by (rule Suc.IH[OF enc'])
  have shift: "?F (Suc cur) (Suc j0) = ?F cur j0 \<circ> Suc"
    by (simp add: fun_eq_iff)
  have upt: "[0..<Suc n] = 0 # map Suc [0..<n]"
    by (simp add: upt_conv_Cons map_Suc_upt del: upt_Suc)
  have first: "?F cur j0 0 (st, cs) = (st', cs[cur := x'])"
    using fx idx by simp
  have "fold (?F cur j0) [0..<Suc n] (st, cs)
      = fold (?F cur j0 \<circ> Suc) [0..<n] (?F cur j0 0 (st, cs))"
    unfolding upt by (simp add: fold_map del: upt_Suc)
  also have "\<dots> = fold (?F (Suc cur) (Suc j0)) [0..<n] (st', cs[cur := x'])"
    by (simp only: shift first)
  finally have rhs: "fold (?F cur j0) [0..<Suc n] (st, cs)
      = fold (?F (Suc cur) (Suc j0)) [0..<n] (st', cs[cur := x'])" .
  have "apply_loop f Rank s (Suc n) cur idx st cs
      = apply_loop f Rank s n (Suc cur) (snd (advance_index_pack Rank s idx)) st'
          (cs[cur := x'])"
    by (simp add: fx)
  then show ?case by (simp only: IH rhs)
qed

lemma fold_recorder:
  "fold (\<lambda>j (tr, cs). (tr @ [(cs ! j, T j)], cs)) [0..<n] (tr, cs)
   = (tr @ map (\<lambda>j. (cs ! j, T j)) [0..<n], cs)"
  by (induction n) simp_all

lemma mixed_radix_tuple_zero: "mixed_radix_tuple e p 0 = replicate (length p) 0"
  by (intro nth_equalityI) (simp_all add: mixed_radix_tuple_def)
text \<open>
  C4. On every adapter a program can hold, \<^verbatim>\<open>apply(fn)\<close> calls \<open>fn\<close> exactly
  \<^verbatim>\<open>min(required_size(), size())\<close> times, the \<open>j\<close>-th call on the \<open>j\<close>-th element of
  the container, and the index pack of the \<open>j\<close>-th call is the \<open>j\<close>-th tuple of the
  mixed-radix counting sequence under the current extents and priorities: it starts at
  the all-zero tuple, and the digit of a dimension is \<open>j\<close> divided by the product of the
  extents of the less major dimensions, modulo the extent of the dimension, which is
  what incrementing the least major index with carries towards the more major ones
  produces. The second part records the calls of a callable that leaves the elements
  alone.
\<close>

theorem apply_odometer:
  fixes m :: "('a::len, 'e) multiarray"
  shows "reachable Rank m \<Longrightarrow>
     apply_md f Rank st m =
       (case fold (\<lambda>j (st, cs).
                 case f st (cs ! j)
                        (map of_nat (mixed_radix_tuple (map unat (extents Rank m))
                           (map unat (priorities Rank m)) j)) of
                   (st', x') \<Rightarrow> (st', cs[j := x']))
               [0..<min (unat (required_size m)) (length (c m))] (st, c m) of
          (st', cs') \<Rightarrow> (st', m\<lparr>c := cs'\<rparr>))
     \<and> apply_md (\<lambda>tr x t. (tr @ [(x, t)], x)) Rank [] m =
         (map (\<lambda>j. (c m ! j,
                  map of_nat (mixed_radix_tuple (map unat (extents Rank m))
                     (map unat (priorities Rank m)) j)))
            [0..<min (unat (required_size m)) (length (c m))], m)
     \<and> mixed_radix_tuple (map unat (extents Rank m)) (map unat (priorities Rank m)) 0
         = replicate (unat Rank) 0
     \<and> unat (required_size m) = prod_list (map unat (extents Rank m))"
proof -
  assume re: "reachable Rank m"
  let ?T = "\<lambda>j. map of_nat (mixed_radix_tuple (map unat (extents Rank m))
                     (map unat (priorities Rank m)) j) :: 'a word list"
  let ?n = "min (unat (required_size m)) (length (c m))"
  have ok: "stats_ok Rank m" using re by (rule reachable_stats_ok)
  then have sh: "shape_ok Rank m" by (simp add: stats_ok_def)
  have "length (c m) \<le> unat (- 1 :: 'a word)" using re by (rule reachable_size)
  also have "\<dots> < 2 ^ LENGTH('a)" by (rule unsigned_less)
  finally have "unat (of_nat (length (c m)) :: 'a word) = length (c m)"
    by (simp add: unat_of_nat)
  then have n: "unat (min (required_size m) (size_c m)) = ?n"
    by (simp add: unat_min size_c_def)
  have loop: "apply_loop g Rank m ?n 0 (first_index_pack Rank) s0 (c m)
      = fold (\<lambda>j (st, cs). case g st (cs ! j) (?T j) of (st', x') \<Rightarrow> (st', cs[j := x']))
          [0..<?n] (s0, c m)" for g :: "'t \<Rightarrow> 'e \<Rightarrow> 'a word list \<Rightarrow> 't \<times> 'e" and s0
    using apply_loop_fold[OF sh first_index_pack_spec[OF sh], of g ?n 0 s0 "c m"] by simp
  have 1: "apply_md f Rank st m =
       (case fold (\<lambda>j (st, cs). case f st (cs ! j) (?T j) of
                   (st', x') \<Rightarrow> (st', cs[j := x']))
               [0..<?n] (st, c m) of
          (st', cs') \<Rightarrow> (st', m\<lparr>c := cs'\<rparr>))"
    by (simp only: apply_md_def Let_def n loop)
  have "apply_md (\<lambda>tr x t. (tr @ [(x, t)], x)) Rank [] m =
       (case fold (\<lambda>j (tr, cs). case (tr @ [(cs ! j, ?T j)], cs ! j) of
                   (tr', x') \<Rightarrow> (tr', cs[j := x']))
               [0..<?n] ([], c m) of
          (tr', cs') \<Rightarrow> (tr', m\<lparr>c := cs'\<rparr>))"
    by (simp only: apply_md_def Let_def n loop)
  then have 2: "apply_md (\<lambda>tr x t. (tr @ [(x, t)], x)) Rank [] m
      = (map (\<lambda>j. (c m ! j, ?T j)) [0..<?n], m)"
    by (simp add: fold_recorder)
  have lp: "length (priorities Rank m) = unat Rank"
    using sh is_permutation_length[of "priorities Rank m" "row_major_order Rank"]
    by (simp add: shape_ok_def)
  have 3: "mixed_radix_tuple (map unat (extents Rank m)) (map unat (priorities Rank m)) 0
      = replicate (unat Rank) 0"
    using lp by (simp add: mixed_radix_tuple_zero)
  have 4: "unat (required_size m) = prod_list (map unat (extents Rank m))"
    using ok by (rule required_size_prod)
  show ?thesis by (intro conjI 1 2 3 4)
qed

theorem apply_odometer_witness:
  "reachable (2 :: 64 word)
     \<lparr>extents_i = [2, 3], priorities_i = [1, 0], strides_i = [1, 2],
      c = [10, 20, 30, 40, 50, 60 :: int]\<rparr>
   \<and> apply_md (\<lambda>tr x t. (tr @ [(x, t)], x)) (2 :: 64 word) []
        \<lparr>extents_i = [2, 3], priorities_i = [1, 0], strides_i = [1, 2],
         c = [10, 20, 30, 40, 50, 60 :: int]\<rparr>
       = ([(10, [0, 0]), (20, [1, 0]), (30, [0, 1]), (40, [1, 1]), (50, [0, 2]), (60, [1, 2])],
          \<lparr>extents_i = [2, 3], priorities_i = [1, 0], strides_i = [1, 2],
           c = [10, 20, 30, 40, 50, 60 :: int]\<rparr>)"
proof -
  let ?cc = "[10, 20, 30, 40, 50, 60 :: int]"
  let ?M = "\<lparr>extents_i = [2, 3 :: 64 word], priorities_i = [1, 0], strides_i = [1, 2], c = ?cc\<rparr>"
  have l: "length ?cc \<le> unat (- 1 :: 64 word)"
    by (simp add: unsigned_minus_1_eq_mask mask_eq_exp_minus_1)
  have r0: "reachable (2 :: 64 word) (snd (construct 2 ?cc))"
    using l by (rule reachable.constructed)
  have le: "length [2, 3 :: 64 word] = unat (2 :: 64 word)"
    and lp: "length [1, 0 :: 64 word] = unat (2 :: 64 word)" by simp_all
  have ev: "snd (extents_and_priorities (2 :: 64 word) [2, 3] [1, 0] (snd (construct 2 ?cc))) = ?M"
    by code_simp
  have r1: "reachable (2 :: 64 word) ?M"
    using reachable.after_extents_and_priorities[OF r0 le lp] unfolding ev .
  have rhs: "map (\<lambda>j. (c ?M ! j,
                  map of_nat (mixed_radix_tuple (map unat (extents 2 ?M))
                     (map unat (priorities 2 ?M)) j) :: 64 word list))
            [0..<min (unat (required_size ?M)) (length (c ?M))]
      = [(10, [0, 0]), (20, [1, 0]), (30, [0, 1]), (40, [1, 1]), (50, [0, 2]), (60, [1, 2])]"
    by code_simp
  from apply_odometer[OF r1, of "\<lambda>tr x t. (tr, x)" "[] :: unit list"]
  have "apply_md (\<lambda>tr x t. (tr @ [(x, t)], x)) (2 :: 64 word) [] ?M =
         (map (\<lambda>j. (c ?M ! j,
                  map of_nat (mixed_radix_tuple (map unat (extents 2 ?M))
                     (map unat (priorities 2 ?M)) j)))
            [0..<min (unat (required_size ?M)) (length (c ?M))], ?M)"
    by (elim conjE)
  then have res: "apply_md (\<lambda>tr x t. (tr @ [(x, t)], x)) (2 :: 64 word) [] ?M
      = ([(10, [0, 0]), (20, [1, 0]), (30, [0, 1]), (40, [1, 1]), (50, [0, 2]), (60, [1, 2])], ?M)"
    by (simp only: rhs)
  show ?thesis by (intro conjI r1 res)
qed

end
